theory Spec2Isabelle
  imports Main "HOL-Library.Sublist"
begin

section \<open>The persisted data model of \<^verbatim>\<open>cosmos/Workflow/models.py\<close>\<close>

text \<open>
  A shallow embedding of the Django models of the workflow engine. A table is the list of
  its rows; a row is a record with the model's columns; a foreign key is the primary key
  it points to. A model instance held by the Python code (\<^verbatim>\<open>self\<close>, a Task taken from a
  queryset) is a value of the same record type: it is a snapshot of the row, and
  \<^verbatim>\<open>save()\<close> writes the snapshot back under its primary key.

  \<^verbatim>\<open>timezone.now()\<close> is a reading of the clock, a natural number that the caller passes
  in. Logging (\<^verbatim>\<open>self.log\<close>) and the Django signals have no effect on the rows and are left
  out. The resource hints of a Task (memory, cpu, time) are read by no function modelled
  here and are left out of the record.
\<close>

type_synonym datetime = nat

text \<open>\<^verbatim>\<open>status_choices\<close>: the four values of a status column.\<close>

datatype status = Successful | No_attempt | In_progress | Failed

text \<open>The exceptions the modelled code raises or lets through.\<close>

datatype error =
    ValidationError
  | AttributeError
  | NetworkXError
  | KeyError
  | DoesNotExist
  | MultipleObjectsReturned
  | ValueError
  | TypeError
  | PyException
  | SystemExit

record Workflow =
  w_id :: nat
  w_name :: string
  w_output_dir :: string
  w_jobManager :: "nat option"
  w_dry_run :: bool
  w_max_reattempts :: int
  w_default_queue :: "string option"
  w_delete_intermediates :: bool
  w_created_on :: "datetime option"
  w_finished_on :: "datetime option"
  w_status :: "status option"

text \<open>
  \<^verbatim>\<open>w_status\<close> is the plain Python attribute \<^verbatim>\<open>self.status\<close> that
  \<^verbatim>\<open>_reattempt_task\<close> sets on the workflow object; it is not a column, so a saved row
  never carries it.
\<close>

record Stage =
  s_id :: nat
  s_name :: string
  s_workflow :: nat
  s_order_in_workflow :: "int option"
  s_status :: status
  s_successful :: bool
  s_started_on :: "datetime option"
  s_created_on :: "datetime option"
  s_finished_on :: "datetime option"

record Task =
  t_id :: nat
  t_stage :: nat
  t_pcmd :: string
  t_exec_command :: "string option"
  t_successful :: bool
  t_status :: status
  t_NOOP :: bool
  t_succeed_on_failure :: bool
  t_cleared_output_files :: bool
  t_dont_delete_output_files :: bool
  t_tags :: "(string \<times> string) list"
  t_created_on :: "datetime option"
  t_finished_on :: "datetime option"

record TaskFile =
  tf_id :: "nat option"
  tf_path :: "string option"
  tf_name :: "string option"
  tf_fmt :: "string option"
  tf_tmp_id :: nat

record TaskEdge =
  te_id :: nat
  te_parent :: nat
  te_child :: nat

record TaskTag =
  tt_id :: nat
  tt_task :: nat
  tt_key :: string
  tt_value :: string

text \<open>
  Modelled from the spec: \<^verbatim>\<open>cosmos.Job.models\<close> (JobAttempt, JobManager) is imported by
  \<^verbatim>\<open>models.py\<close> and is not among the sources. Section 3 of the specification gives a
  JobAttempt a foreign key to its Task, a DRM job id, a \<^verbatim>\<open>queue_status\<close> among
  \<^verbatim>\<open>not_submitted\<close>, \<^verbatim>\<open>queued\<close>, \<^verbatim>\<open>completed\<close>, a \<^verbatim>\<open>successful\<close> boolean and timestamps;
  \<^verbatim>\<open>self.jobManager.jobAttempts\<close> in the source makes it belong to a JobManager.
\<close>

datatype queue_status = Not_submitted | Queued | Completed

record JobAttempt =
  ja_id :: nat
  ja_jobManager :: nat
  ja_task :: nat
  ja_command :: string
  ja_drmaa_jobID :: "nat option"
  ja_queue_status :: queue_status
  ja_successful :: bool
  ja_finished_on :: "datetime option"

text \<open>
  The state the engine acts on: the tables, the two many-to-many relations of Task
  (\<^verbatim>\<open>_output_files\<close>, \<^verbatim>\<open>_input_files\<close>, as pairs of a Task id and a TaskFile id), the
  paths present on the file system, and the requests the DRM has received (the attempts
  handed to it, the attempts it was told to kill).
\<close>

record State =
  workflows :: "Workflow list"
  stages :: "Stage list"
  tasks :: "Task list"
  task_edges :: "TaskEdge list"
  task_tags :: "TaskTag list"
  task_files :: "TaskFile list"
  task_output_files :: "(nat \<times> nat) list"
  task_input_files :: "(nat \<times> nat) list"
  job_attempts :: "JobAttempt list"
  fs :: "string list"
  drm_submitted :: "nat list"
  drm_killed :: "nat list"

text \<open>
  \<^verbatim>\<open>Model.save()\<close>: an UPDATE of the row with the instance's primary key, an INSERT
  when there is none.
\<close>

definition upsert :: "('a \<Rightarrow> nat) \<Rightarrow> 'a \<Rightarrow> 'a list \<Rightarrow> 'a list" where
  "upsert key r rows =
     (if key r \<in> key ` set rows then map (\<lambda>x. if key x = key r then r else x) rows
      else rows @ [r])"

definition save_workflow :: "Workflow \<Rightarrow> State \<Rightarrow> State" where
  "save_workflow w st = st\<lparr>workflows := upsert w_id (w\<lparr>w_status := None\<rparr>) (workflows st)\<rparr>"

section \<open>\<^verbatim>\<open>Workflow.finished\<close>\<close>

text \<open>
  \<^verbatim>\<open>
  def finished(self):
      self.finished_on = timezone.now()
      self.save()
      self.log.info('Finished.')
  \<close>
  The result is the workflow object and the state after the call.
\<close>

definition finished :: "datetime \<Rightarrow> Workflow \<Rightarrow> State \<Rightarrow> Workflow \<times> State" where
  "finished now self st =
     (let self' = self\<lparr>w_finished_on := Some now\<rparr> in (self', save_workflow self' st))"

text \<open>Example rows used by the concrete evaluations below.\<close>

definition example_workflow :: Workflow where
  "example_workflow =
     \<lparr>w_id = 1, w_name = ''wf'', w_output_dir = ''/out/wf'', w_jobManager = Some 1,
      w_dry_run = False, w_max_reattempts = 3, w_default_queue = None,
      w_delete_intermediates = False, w_created_on = Some 0, w_finished_on = None,
      w_status = None\<rparr>"

definition empty_state :: State where
  "empty_state =
     \<lparr>workflows = [], stages = [], tasks = [], task_edges = [], task_tags = [],
      task_files = [], task_output_files = [], task_input_files = [], job_attempts = [],
      fs = [], drm_submitted = [], drm_killed = []\<rparr>"

definition mk_stage :: "nat \<Rightarrow> status \<Rightarrow> bool \<Rightarrow> datetime option \<Rightarrow> Stage" where
  "mk_stage i s ok fin =
     \<lparr>s_id = i, s_name = ''stage'', s_workflow = 1, s_order_in_workflow = Some 1,
      s_status = s, s_successful = ok, s_started_on = None, s_created_on = None,
      s_finished_on = fin\<rparr>"

definition mk_task :: "nat \<Rightarrow> nat \<Rightarrow> status \<Rightarrow> bool \<Rightarrow> bool \<Rightarrow> datetime option \<Rightarrow> Task" where
  "mk_task i stage s ok noop fin =
     \<lparr>t_id = i, t_stage = stage, t_pcmd = ''cmd'', t_exec_command = None, t_successful = ok,
      t_status = s, t_NOOP = noop, t_succeed_on_failure = False,
      t_cleared_output_files = False, t_dont_delete_output_files = False, t_tags = [],
      t_created_on = None, t_finished_on = fin\<rparr>"

definition mk_jobAttempt :: "nat \<Rightarrow> nat \<Rightarrow> queue_status \<Rightarrow> bool \<Rightarrow> datetime option \<Rightarrow> JobAttempt" where
  "mk_jobAttempt i task q ok fin =
     \<lparr>ja_id = i, ja_jobManager = 1, ja_task = task, ja_command = ''cmd'',
      ja_drmaa_jobID = Some i, ja_queue_status = q, ja_successful = ok, ja_finished_on = fin\<rparr>"

lemmas example_defs = example_workflow_def empty_state_def mk_stage_def mk_task_def mk_jobAttempt_def

lemma map_no_key: "\<forall>x\<in>set rows. key x \<noteq> k \<Longrightarrow> map (\<lambda>x. if key x = k then r else x) rows = rows"
  by (induction rows) auto

lemma key_in_upsert: "key r \<in> key ` set (upsert key r rows)"
proof (cases "key r \<in> key ` set rows")
  case True
  then obtain x where x: "x \<in> set rows" "key x = key r" by auto
  then have "r \<in> set (map (\<lambda>x. if key x = key r then r else x) rows)" by force
  then show ?thesis using True unfolding upsert_def by (simp only: if_True) (rule imageI)
next
  case False
  then show ?thesis by (simp add: upsert_def)
qed

lemma upsert_upsert:
  assumes "key r2 = key r1"
  shows "upsert key r2 (upsert key r1 rows) = upsert key r2 rows"
proof (cases "key r1 \<in> key ` set rows")
  case True
  have in2: "key r2 \<in> key ` set (upsert key r1 rows)"
    using key_in_upsert[of key r1 rows] assms by simp
  have "upsert key r2 (upsert key r1 rows) = map (\<lambda>x. if key x = key r2 then r2 else x) (upsert key r1 rows)"
    using in2 by (simp add: upsert_def)
  also have "\<dots> = map (\<lambda>x. if key x = key r2 then r2 else x) (map (\<lambda>x. if key x = key r1 then r1 else x) rows)"
    using True by (simp add: upsert_def)
  also have "\<dots> = map (\<lambda>x. if key x = key r2 then r2 else x) rows"
    using assms by (induction rows) auto
  also have "\<dots> = upsert key r2 rows"
    using True assms by (simp add: upsert_def)
  finally show ?thesis .
next
  case False
  then have "map (\<lambda>x. if key x = key r1 then r2 else x) rows = rows"
    by (intro map_no_key ballI) (metis imageI)
  with False assms show ?thesis
    by (simp add: upsert_def)
qed

text \<open>
  C7, as the specification states it: a second \<^verbatim>\<open>finished()\<close> leaves the
  \<^verbatim>\<open>finished_on\<close> of the first. On the code it does not: each call stamps the reading
  of the clock at that call. With the first call at time 1 and the second at time 2, the
  workflow ends with \<^verbatim>\<open>finished_on = 2\<close>, not 1.
\<close>

theorem finished_twice_counterexample:
  "w_finished_on (fst (finished 1 example_workflow
       (empty_state\<lparr>workflows := [example_workflow]\<rparr>))) = Some 1
   \<and> w_finished_on (fst (finished 2
       (fst (finished 1 example_workflow (empty_state\<lparr>workflows := [example_workflow]\<rparr>)))
       (snd (finished 1 example_workflow (empty_state\<lparr>workflows := [example_workflow]\<rparr>)))))
     = Some 2
   \<and> map w_finished_on (workflows (snd (finished 2
       (fst (finished 1 example_workflow (empty_state\<lparr>workflows := [example_workflow]\<rparr>)))
       (snd (finished 1 example_workflow (empty_state\<lparr>workflows := [example_workflow]\<rparr>))))))
     = [Some 2]"
  by (simp add: finished_def save_workflow_def upsert_def example_workflow_def
      empty_state_def Let_def)

text \<open>
  C7, amended: \<^verbatim>\<open>finished()\<close> stamps \<^verbatim>\<open>finished_on\<close> with the time of the call and
  saves the workflow. Called twice, it leaves exactly the object and the rows that the
  second call alone would have left: \<^verbatim>\<open>finished_on\<close> is the time of the second call, so
  the two calls agree on it only when the clock reads the same at both; nothing but
  \<^verbatim>\<open>finished_on\<close> is touched.
\<close>

theorem finished_twice:
  "finished t2 (fst (finished t1 self st)) (snd (finished t1 self st)) = finished t2 self st
   \<and> w_finished_on (fst (finished t2 (fst (finished t1 self st)) (snd (finished t1 self st))))
       = Some t2
   \<and> fst (finished t1 self st) = self\<lparr>w_finished_on := Some t1\<rparr>
   \<and> snd (finished t1 self st)
       = st\<lparr>workflows := upsert w_id (self\<lparr>w_finished_on := Some t1, w_status := None\<rparr>)
            (workflows st)\<rparr>"
  by (simp add: finished_def save_workflow_def Let_def upsert_upsert)

section \<open>\<^verbatim>\<open>Workflow.add_stage\<close>\<close>

text \<open>
  \<^verbatim>\<open>re.sub("\s","_",name)\<close>: every whitespace character of a byte string (space, tab,
  newline, carriage return, form feed, vertical tab) becomes an underscore.
\<close>

definition whitespace :: "char list" where
  "whitespace = [CHR '' '', CHR 0x09, CHR 0x0A, CHR 0x0D, CHR 0x0C, CHR 0x0B]"

definition sub_whitespace :: "string \<Rightarrow> string" where
  "sub_whitespace name = map (\<lambda>c. if c \<in> set whitespace then CHR ''_'' else c) name"

definition path_join :: "string \<Rightarrow> string \<Rightarrow> string" where
  "path_join a b =
     (if b \<noteq> [] \<and> hd b = CHR ''/'' then b
      else if a = [] \<or> last a = CHR ''/'' then a @ b
      else a @ ''/'' @ b)"

definition check_and_create_output_dir :: "string \<Rightarrow> State \<Rightarrow> State" where
  "check_and_create_output_dir d st = (if d \<in> set (fs st) then st else st\<lparr>fs := fs st @ [d]\<rparr>)"

definition new_id :: "('a \<Rightarrow> nat) \<Rightarrow> 'a list \<Rightarrow> nat" where
  "new_id key rows = Suc (Max (set (0 # map key rows)))"

definition save_stage :: "Stage \<Rightarrow> State \<Rightarrow> State" where
  "save_stage b st = st\<lparr>stages := upsert s_id b (stages st)\<rparr>"

definition Stage_output_dir :: "Workflow \<Rightarrow> Stage \<Rightarrow> string" where
  "Stage_output_dir w b = path_join (w_output_dir w) (s_name b)"

definition Stage_init :: "(string \<Rightarrow> bool) \<Rightarrow> Workflow \<Rightarrow> Stage \<Rightarrow> State \<Rightarrow> error + State" where
  "Stage_init validate_name w b st =
     (if \<not> validate_name (s_name b) then Inl ValidationError
      else Inr (check_and_create_output_dir (Stage_output_dir w b) st))"

definition get_or_create_stage ::
  "(string \<Rightarrow> bool) \<Rightarrow> datetime \<Rightarrow> Workflow \<Rightarrow> string \<Rightarrow> State \<Rightarrow> error + (Stage \<times> bool \<times> State)" where
  "get_or_create_stage validate_name now self name st =
     (case filter (\<lambda>s. s_workflow s = w_id self \<and> s_name s = name) (stages st) of
        [] \<Rightarrow>
          (let b = \<lparr>s_id = new_id s_id (stages st), s_name = name, s_workflow = w_id self,
                    s_order_in_workflow = None, s_status = No_attempt, s_successful = False,
                    s_started_on = None, s_created_on = Some now, s_finished_on = None\<rparr>
           in case Stage_init validate_name self b st of
                Inl e \<Rightarrow> Inl e
              | Inr st1 \<Rightarrow> Inr (b, True, st1\<lparr>stages := stages st1 @ [b]\<rparr>))
      | [b] \<Rightarrow>
          (case Stage_init validate_name self b st of
             Inl e \<Rightarrow> Inl e
           | Inr st1 \<Rightarrow> Inr (b, False, st1))
      | _ \<Rightarrow> Inl MultipleObjectsReturned)"

definition max_order_in_workflow :: "Workflow \<Rightarrow> State \<Rightarrow> int option" where
  "max_order_in_workflow self st =
     (let orders = List.map_filter s_order_in_workflow
                     (filter (\<lambda>s. s_workflow s = w_id self) (stages st))
      in if orders = [] then None else Some (Max (set orders)))"

definition add_stage ::
  "(string \<Rightarrow> bool) \<Rightarrow> datetime \<Rightarrow> string \<Rightarrow> Workflow \<Rightarrow> State \<Rightarrow> error + (Stage \<times> Workflow \<times> State)" where
  "add_stage validate_name now name0 self st =
     (let name = sub_whitespace name0;
          order_in_workflow = (case max_order_in_workflow self st of None \<Rightarrow> 1 | Some m \<Rightarrow> m + 1)
      in case get_or_create_stage validate_name now self name st of
           Inl e \<Rightarrow> Inl e
         | Inr (b, created, st1) \<Rightarrow>
             (let self' = (if created then self else self\<lparr>w_finished_on := None\<rparr>);
                  b' = b\<lparr>s_order_in_workflow := Some order_in_workflow\<rparr>
              in Inr (b', self', save_stage b' st1)))"


lemma set_upsert_subset: "set (upsert key r rows) \<subseteq> insert r (set rows)"
  by (auto simp: upsert_def)

lemma in_set_upsert: "r \<in> set (upsert key r rows)"
proof (cases "key r \<in> key ` set rows")
  case True
  then obtain x where "x \<in> set rows" "key x = key r" by auto
  then have "r \<in> set (map (\<lambda>x. if key x = key r then r else x) rows)" by force
  with True show ?thesis by (simp only: upsert_def if_True)
next
  case False
  then show ?thesis by (simp add: upsert_def)
qed

lemma length_upsert_present:
  "key r \<in> key ` set rows \<Longrightarrow> length (upsert key r rows) = length rows"
  by (simp add: upsert_def)

lemma new_id_fresh: "new_id key rows \<notin> key ` set rows"
proof
  assume "new_id key rows \<in> key ` set rows"
  then have "new_id key rows \<le> Max (set (0 # map key rows))" by (intro Max_ge) auto
  then show False by (simp add: new_id_def)
qed

lemma distinct_key_eq:
  "distinct (map key rows) \<Longrightarrow> x \<in> set rows \<Longrightarrow> y \<in> set rows \<Longrightarrow> key x = key y \<Longrightarrow> x = y"
  by (meson distinct_map inj_on_def)

lemma filter_replace_row:
  assumes d: "distinct (map key rows)" and f: "filter P rows = [b]"
    and r: "P r" "key r = key b"
  shows "filter P (map (\<lambda>x. if key x = key r then r else x) rows) = [r]"
proof -
  have "b \<in> set (filter P rows)" using f by simp
  then have b: "b \<in> set rows" "P b" by simp_all
  have eq: "map (\<lambda>x. if key x = key r then r else x) rows = map (\<lambda>x. if x = b then r else x) rows"
    using d b r distinct_key_eq[OF d] by (intro map_cong) auto
  have "filter P (map (\<lambda>x. if x = b then r else x) rows)
        = map (\<lambda>x. if x = b then r else x) (filter (P \<circ> (\<lambda>x. if x = b then r else x)) rows)"
    by (simp add: filter_map)
  also have "filter (P \<circ> (\<lambda>x. if x = b then r else x)) rows = filter P rows"
    using b r by (intro filter_cong) auto
  finally have "filter P (map (\<lambda>x. if x = b then r else x) rows) = [r]" using f by simp
  then show ?thesis by (simp only: eq)
qed

lemma distinct_upsert:
  "distinct (map key rows) \<Longrightarrow> distinct (map key (upsert key r rows))"
proof (cases "key r \<in> key ` set rows")
  case True
  assume d: "distinct (map key rows)"
  have "map key (map (\<lambda>x. if key x = key r then r else x) rows) = map key rows"
    by (induction rows) auto
  with True d show ?thesis by (simp only: upsert_def if_True)
next
  case False
  assume "distinct (map key rows)"
  with False show ?thesis by (simp add: upsert_def)
qed


lemma stages_check_dir [simp]: "stages (check_and_create_output_dir d st) = stages st"
  by (simp add: check_and_create_output_dir_def)

lemma add_stage_first:
  assumes d: "distinct (map s_id (stages st))"
    and r: "add_stage vn t1 name self st = Inr (b1, self1, st1)"
  shows "vn (sub_whitespace name)"
    and "w_id self1 = w_id self"
    and "filter (\<lambda>s. s_workflow s = w_id self \<and> s_name s = sub_whitespace name) (stages st1) = [b1]"
    and "s_order_in_workflow b1
         = Some (case max_order_in_workflow self st of None \<Rightarrow> 1 | Some m \<Rightarrow> m + 1)"
    and "set (stages st1) \<subseteq> insert b1 (set (stages st))"
    and "distinct (map s_id (stages st1))"
proof -
  let ?P = "\<lambda>s. s_workflow s = w_id self \<and> s_name s = sub_whitespace name"
  let ?k = "case max_order_in_workflow self st of None \<Rightarrow> 1 | Some m \<Rightarrow> m + 1"
  have all: "vn (sub_whitespace name) \<and> w_id self1 = w_id self \<and> filter ?P (stages st1) = [b1]
      \<and> s_order_in_workflow b1 = Some ?k \<and> set (stages st1) \<subseteq> insert b1 (set (stages st))
      \<and> distinct (map s_id (stages st1))"
  proof (cases "filter ?P (stages st)")
    case Nil
    let ?b = "\<lparr>s_id = new_id s_id (stages st), s_name = sub_whitespace name, s_workflow = w_id self,
                s_order_in_workflow = None, s_status = No_attempt, s_successful = False,
                s_started_on = None, s_created_on = Some t1, s_finished_on = None\<rparr>"
    from r Nil have vn: "vn (sub_whitespace name)"
      by (auto simp: add_stage_def get_or_create_stage_def Stage_init_def Let_def split: if_splits)
    from r Nil vn have b1: "b1 = ?b\<lparr>s_order_in_workflow := Some ?k\<rparr>" and s1: "self1 = self"
      and st1: "stages st1 = upsert s_id b1 (stages st @ [?b])"
      by (auto simp: add_stage_def get_or_create_stage_def Stage_init_def Let_def save_stage_def)
    have fresh: "s_id b1 \<notin> s_id ` set (stages st)"
      using new_id_fresh[of s_id "stages st"] b1 by simp
    have up: "upsert s_id b1 (stages st @ [?b]) = stages st @ [b1]"
    proof -
      have "map (\<lambda>x. if s_id x = s_id b1 then b1 else x) (stages st) = stages st"
        using fresh by (intro map_no_key ballI) (metis imageI)
      moreover have "s_id ?b = s_id b1" using b1 by simp
      ultimately show ?thesis by (simp add: upsert_def)
    qed
    have pb1: "?P b1" and ob1: "s_order_in_workflow b1 = Some ?k"
      using b1 by simp_all
    have "filter ?P (stages st1) = [b1]"
      using Nil pb1 by (simp add: st1 up)
    moreover have "distinct (map s_id (stages st1))"
      using d fresh by (simp add: st1 up)
    moreover have "set (stages st1) \<subseteq> insert b1 (set (stages st))"
      by (auto simp: st1 up)
    ultimately show ?thesis using vn s1 ob1 by simp
  next
    case (Cons b rest)
    show ?thesis
    proof (cases rest)
      case Nil
      with Cons have f: "filter ?P (stages st) = [b]" by simp
      from r f have vn: "vn (s_name b)"
        by (auto simp: add_stage_def get_or_create_stage_def Stage_init_def Let_def split: if_splits)
      from r f vn have b1: "b1 = b\<lparr>s_order_in_workflow := Some ?k\<rparr>"
        and s1: "self1 = self\<lparr>w_finished_on := None\<rparr>"
        and st1: "stages st1 = upsert s_id b1 (stages st)"
        by (auto simp: add_stage_def get_or_create_stage_def Stage_init_def Let_def save_stage_def)
      have "b \<in> set (filter ?P (stages st))" using f by simp
      then have b: "b \<in> set (stages st)" "?P b" by simp_all
      then have pres: "s_id b1 \<in> s_id ` set (stages st)" using b1 by force
      have vn': "vn (sub_whitespace name)" using vn b by simp
      have pb1: "?P b1" and ob1: "s_order_in_workflow b1 = Some ?k" and idb1: "s_id b1 = s_id b"
        using b1 b by simp_all
      have "filter ?P (map (\<lambda>x. if s_id x = s_id b1 then b1 else x) (stages st)) = [b1]"
        using pb1 idb1 by (intro filter_replace_row[OF d f]) simp_all
      then have "filter ?P (stages st1) = [b1]"
        using pres by (simp add: st1 upsert_def)
      moreover have "distinct (map s_id (stages st1))"
        unfolding st1 by (rule distinct_upsert[OF d])
      moreover have "set (stages st1) \<subseteq> insert b1 (set (stages st))"
        unfolding st1 by (rule set_upsert_subset)
      ultimately show ?thesis using vn' s1 ob1 by simp
    next
      case (Cons c rest')
      with \<open>filter ?P (stages st) = b # rest\<close> r show ?thesis
        by (simp add: add_stage_def get_or_create_stage_def Let_def)
    qed
  qed
  from all show "vn (sub_whitespace name)" by simp
  from all show "w_id self1 = w_id self" by simp
  from all show "filter ?P (stages st1) = [b1]" by simp
  from all show "s_order_in_workflow b1 = Some ?k" by simp
  from all show "set (stages st1) \<subseteq> insert b1 (set (stages st))" by simp
  from all show "distinct (map s_id (stages st1))" by simp
qed


lemma set_map_filter: "set (List.map_filter g xs) = {y. \<exists>x\<in>set xs. g x = Some y}"
  by (induction xs) (auto split: option.splits)

lemma max_order_in_workflow_ge:
  assumes "s \<in> set (stages st)" "s_workflow s = w_id self" "s_order_in_workflow s = Some x"
  shows "\<exists>m. max_order_in_workflow self st = Some m \<and> x \<le> m"
proof -
  let ?orders = "List.map_filter s_order_in_workflow (filter (\<lambda>s. s_workflow s = w_id self) (stages st))"
  have "x \<in> set ?orders" using assms by (auto simp: set_map_filter)
  then have "?orders \<noteq> []" "x \<le> Max (set ?orders)" by auto
  then show ?thesis by (simp add: max_order_in_workflow_def Let_def)
qed

lemma max_order_in_workflow_eqI:
  assumes "b \<in> set (stages st)" "s_workflow b = w_id self" "s_order_in_workflow b = Some k"
    and "\<And>s x. s \<in> set (stages st) \<Longrightarrow> s_workflow s = w_id self \<Longrightarrow> s_order_in_workflow s = Some x \<Longrightarrow> x \<le> k"
  shows "max_order_in_workflow self st = Some k"
proof -
  let ?orders = "List.map_filter s_order_in_workflow (filter (\<lambda>s. s_workflow s = w_id self) (stages st))"
  have k: "k \<in> set ?orders" using assms(1-3) by (auto simp: set_map_filter)
  have "\<And>x. x \<in> set ?orders \<Longrightarrow> x \<le> k" using assms(4) by (auto simp: set_map_filter)
  then have "Max (set ?orders) = k" using k by (intro Max_eqI) auto
  moreover have "?orders \<noteq> []" using k by auto
  ultimately show ?thesis by (simp add: max_order_in_workflow_def Let_def)
qed

definition accept_name :: "string \<Rightarrow> bool" where
  "accept_name n = True"

definition example_stage :: "int \<Rightarrow> Stage" where
  "example_stage k =
     \<lparr>s_id = 1, s_name = ''a'', s_workflow = 1, s_order_in_workflow = Some k,
      s_status = No_attempt, s_successful = False, s_started_on = None,
      s_created_on = Some 5, s_finished_on = None\<rparr>"

text \<open>
  C9, as the specification states it: a second \<^verbatim>\<open>add_stage\<close> with the same name
  returns the same row and leaves the stage in the same state. On the code the row is the
  same, its state is not: in a workflow without stages the first call gives the stage
  \<^verbatim>\<open>order_in_workflow = 1\<close>, and the second call, which takes the maximum over the
  workflow's stages (the stage itself among them) plus one, rewrites it to 2.
\<close>

theorem add_stage_twice_counterexample:
  "add_stage accept_name 5 ''a'' example_workflow empty_state
     = Inr (example_stage 1, example_workflow,
            empty_state\<lparr>stages := [example_stage 1], fs := [''/out/wf/a'']\<rparr>)
   \<and> add_stage accept_name 6 ''a'' example_workflow
         (empty_state\<lparr>stages := [example_stage 1], fs := [''/out/wf/a'']\<rparr>)
     = Inr (example_stage 2, example_workflow,
            empty_state\<lparr>stages := [example_stage 2], fs := [''/out/wf/a'']\<rparr>)
   \<and> example_stage 1 \<noteq> example_stage 2"
  by (simp add: add_stage_def get_or_create_stage_def Stage_init_def Let_def empty_state_def
      max_order_in_workflow_def save_stage_def upsert_def new_id_def example_stage_def
      check_and_create_output_dir_def example_workflow_def sub_whitespace_def whitespace_def
      accept_name_def Stage_output_dir_def path_join_def)

text \<open>
  C9, amended: when the primary keys of the Stage table are distinct and
  \<^verbatim>\<open>add_stage(name)\<close> returns a stage, a second call with the same name returns the row
  with the same primary key and adds no row; each call assigns \<^verbatim>\<open>order_in_workflow\<close> the
  maximum over this workflow's stages at the time of the call plus one (1 when there is
  none), so the second call moves the stage from \<^verbatim>\<open>k\<close> to \<^verbatim>\<open>k + 1\<close> and changes nothing
  else of the row, and no other row of the table.
\<close>

theorem add_stage_twice:
  assumes d: "distinct (map s_id (stages st))"
    and r: "add_stage validate_name t1 name self st = Inr (b1, self1, st1)"
  shows "\<exists>b2 self2 st2 k.
           add_stage validate_name t2 name self1 st1 = Inr (b2, self2, st2)
         \<and> s_id b2 = s_id b1
         \<and> length (stages st2) = length (stages st1)
         \<and> stages st2 = map (\<lambda>s. if s_id s = s_id b1 then b2 else s) (stages st1)
         \<and> k = (case max_order_in_workflow self st of None \<Rightarrow> 1 | Some m \<Rightarrow> m + 1)
         \<and> s_order_in_workflow b1 = Some k
         \<and> max_order_in_workflow self1 st1 = Some k
         \<and> b2 = b1\<lparr>s_order_in_workflow := Some (k + 1)\<rparr>"
proof -
  let ?P = "\<lambda>s. s_workflow s = w_id self \<and> s_name s = sub_whitespace name"
  let ?k = "case max_order_in_workflow self st of None \<Rightarrow> 1 | Some m \<Rightarrow> m + 1"
  note first = add_stage_first[OF d r]
  have f: "filter ?P (stages st1) = [b1]" by (rule first(3))
  then have "b1 \<in> set (filter ?P (stages st1))" by simp
  then have b1: "b1 \<in> set (stages st1)" "s_workflow b1 = w_id self" "s_name b1 = sub_whitespace name"
    by simp_all
  have ord: "s_order_in_workflow b1 = Some ?k" by (rule first(4))
  have mx: "max_order_in_workflow self1 st1 = Some ?k"
  proof (rule max_order_in_workflow_eqI[OF b1(1)])
    show "s_workflow b1 = w_id self1" using b1 first(2) by simp
    show "s_order_in_workflow b1 = Some ?k" by (rule ord)
    fix s x assume s: "s \<in> set (stages st1)" "s_workflow s = w_id self1" "s_order_in_workflow s = Some x"
    show "x \<le> ?k"
    proof (cases "s = b1")
      case True
      with s ord show ?thesis by simp
    next
      case False
      with s first(5) have "s \<in> set (stages st)" by auto
      from max_order_in_workflow_ge[OF this, of self x] s first(2)
      obtain m where "max_order_in_workflow self st = Some m" "x \<le> m" by auto
      then show ?thesis by simp
    qed
  qed
  let ?b2 = "b1\<lparr>s_order_in_workflow := Some (?k + 1)\<rparr>"
  have pres: "s_id ?b2 \<in> s_id ` set (stages st1)" using b1(1) by force
  have call: "add_stage validate_name t2 name self1 st1
      = Inr (?b2, self1\<lparr>w_finished_on := None\<rparr>,
             save_stage ?b2 (check_and_create_output_dir (Stage_output_dir self1 b1) st1))"
    using f first(1,2) b1(3) mx
    by (simp add: add_stage_def get_or_create_stage_def Stage_init_def Let_def)
  have "stages (save_stage ?b2 (check_and_create_output_dir (Stage_output_dir self1 b1) st1))
        = map (\<lambda>s. if s_id s = s_id b1 then ?b2 else s) (stages st1)"
    using pres by (simp add: save_stage_def upsert_def)
  with call ord mx show ?thesis by simp
qed

theorem add_stage_twice_witness:
  "distinct (map s_id (stages empty_state))
   \<and> (\<exists>b1 self1 st1. add_stage accept_name 5 ''a b'' example_workflow empty_state = Inr (b1, self1, st1)
        \<and> (\<exists>b2 self2 st2. add_stage accept_name 6 ''a b'' self1 st1 = Inr (b2, self2, st2)
              \<and> s_id b2 = s_id b1 \<and> s_order_in_workflow b1 = Some 1
              \<and> s_order_in_workflow b2 = Some 2))"
proof -
  have d: "distinct (map s_id (stages empty_state))" by (simp add: empty_state_def)
  obtain b1 self1 st1 where
    r: "add_stage accept_name 5 ''a b'' example_workflow empty_state = Inr (b1, self1, st1)"
    by (simp add: add_stage_def get_or_create_stage_def Stage_init_def Let_def empty_state_def
        max_order_in_workflow_def accept_name_def)
  have m: "max_order_in_workflow example_workflow empty_state = None"
    by (simp add: max_order_in_workflow_def empty_state_def )
  from add_stage_twice[OF d r, of 6] m show ?thesis using d r by auto
qed

section \<open>\<^verbatim>\<open>Workflow.terminate\<close>\<close>

text \<open>
  \<^verbatim>\<open>
  def terminate(self):
      self.save()
      jobAttempts = self.jobManager.jobAttempts.filter(queue_status='queued')
      for ja in jobAttempts:
          self.jobManager.terminate_jobAttempt(ja)
      task_ids = jobAttempts.values('task')
      tasks = Task.objects.filter(pk__in=task_ids)
      tasks.update(status = 'failed',finished_on = timezone.now())
      stages = Stage.objects.filter(Q(task__in=tasks)|Q(successful=False))
      stages.update(status = 'failed',finished_on = timezone.now())
      jobAttempts.update(queue_status='completed',finished_on = timezone.now())
      self.finished()
      sys.exit(1)
  \<close>
  The querysets are lazy: each \<^verbatim>\<open>update\<close> runs its filter against the rows as they are
  when it runs, so each step below selects from the state it receives. The four readings
  of the clock are the parameters \<^verbatim>\<open>now1\<close> to \<^verbatim>\<open>now4\<close>. The call always ends in an
  exception: \<^verbatim>\<open>SystemExit\<close> from \<^verbatim>\<open>sys.exit(1)\<close>, or \<^verbatim>\<open>AttributeError\<close> when the workflow
  has no JobManager; the result carries the exception, the workflow object and the state.

  Modelled from the spec: \<^verbatim>\<open>JobManager.terminate_jobAttempt\<close> is not among the sources;
  section 4.3 of the specification makes it a best-effort forced kill through the DRM. It
  is recorded as a kill request to the DRM and changes no row.
\<close>

definition queued_jobAttempts :: "nat \<Rightarrow> State \<Rightarrow> JobAttempt list" where
  "queued_jobAttempts jm st =
     filter (\<lambda>ja. ja_jobManager ja = jm \<and> ja_queue_status ja = Queued) (job_attempts st)"

definition terminate_jobAttempt :: "JobAttempt \<Rightarrow> State \<Rightarrow> State" where
  "terminate_jobAttempt ja st = st\<lparr>drm_killed := drm_killed st @ [ja_id ja]\<rparr>"

definition update_terminated_tasks :: "datetime \<Rightarrow> nat \<Rightarrow> State \<Rightarrow> State" where
  "update_terminated_tasks now jm st =
     st\<lparr>tasks := map (\<lambda>t. if t_id t \<in> set (map ja_task (queued_jobAttempts jm st))
                           then t\<lparr>t_status := Failed, t_finished_on := Some now\<rparr> else t)
                    (tasks st)\<rparr>"

definition update_terminated_stages :: "datetime \<Rightarrow> nat \<Rightarrow> State \<Rightarrow> State" where
  "update_terminated_stages now jm st =
     st\<lparr>stages := map (\<lambda>s. if (\<exists>t\<in>set (tasks st).
                                  t_id t \<in> set (map ja_task (queued_jobAttempts jm st))
                                  \<and> t_stage t = s_id s)
                               \<or> s_successful s = False
                            then s\<lparr>s_status := Failed, s_finished_on := Some now\<rparr> else s)
                     (stages st)\<rparr>"

definition update_terminated_jobAttempts :: "datetime \<Rightarrow> nat \<Rightarrow> State \<Rightarrow> State" where
  "update_terminated_jobAttempts now jm st =
     st\<lparr>job_attempts := map (\<lambda>ja. if ja_jobManager ja = jm \<and> ja_queue_status ja = Queued
                                   then ja\<lparr>ja_queue_status := Completed, ja_finished_on := Some now\<rparr>
                                   else ja)
                           (job_attempts st)\<rparr>"

definition terminate ::
  "datetime \<Rightarrow> datetime \<Rightarrow> datetime \<Rightarrow> datetime \<Rightarrow> Workflow \<Rightarrow> State \<Rightarrow> error \<times> Workflow \<times> State" where
  "terminate now1 now2 now3 now4 self st =
     (let st1 = save_workflow self st in
      case w_jobManager self of
        None \<Rightarrow> (AttributeError, self, st1)
      | Some jm \<Rightarrow>
          (let st2 = fold terminate_jobAttempt (queued_jobAttempts jm st1) st1;
               st3 = update_terminated_tasks now1 jm st2;
               st4 = update_terminated_stages now2 jm st3;
               st5 = update_terminated_jobAttempts now3 jm st4;
               (self', st6) = finished now4 self st5
           in (SystemExit, self', st6)))"

lemma filter_queued_completed:
  "filter (\<lambda>ja. ja_jobManager ja = jm \<and> ja_queue_status ja = Queued)
     (map (\<lambda>ja. if ja_jobManager ja = jm \<and> ja_queue_status ja = Queued
                then ja\<lparr>ja_queue_status := Completed, ja_finished_on := Some now\<rparr> else ja) xs) = []"
  by (induction xs) simp_all

lemma queued_after_update [simp]: "queued_jobAttempts jm (update_terminated_jobAttempts now jm st) = []"
  by (simp add: queued_jobAttempts_def update_terminated_jobAttempts_def filter_queued_completed)

lemma fold_terminate_jobAttempt:
  "fold terminate_jobAttempt jas st = st\<lparr>drm_killed := drm_killed st @ map ja_id jas\<rparr>"
proof (induction jas arbitrary: st)
  case Nil
  show ?case by simp
next
  case (Cons ja jas)
  show ?case by (simp add: Cons.IH) (simp add: terminate_jobAttempt_def)
qed


lemma map_if_none: "filter P xs = [] \<Longrightarrow> map (\<lambda>x. if P x then f x else x) xs = xs"
  by (induction xs) (auto split: if_splits)

lemma upsert_same_key: "w \<in> set (upsert key r rows) \<Longrightarrow> key w = key r \<Longrightarrow> w = r"
  by (auto simp: upsert_def image_iff split: if_splits)

lemma upsert_present_map:
  "key r \<in> key ` set rows \<Longrightarrow> upsert key r rows = map (\<lambda>x. if key x = key r then r else x) rows"
  by (simp add: upsert_def)

lemma terminate_first:
  assumes jm: "w_jobManager self = Some jm"
    and r: "terminate a1 a2 a3 a4 self st = (e1, self1, s1)"
  shows "e1 = SystemExit"
    and "self1 = self\<lparr>w_finished_on := Some a4\<rparr>"
    and "queued_jobAttempts jm s1 = []"
    and "\<forall>s\<in>set (stages s1). \<not> s_successful s \<longrightarrow> s_status s = Failed"
    and "workflows s1
         = upsert w_id (self\<lparr>w_finished_on := Some a4, w_status := None\<rparr>)
             (upsert w_id (self\<lparr>w_status := None\<rparr>) (workflows st))"
proof -
  let ?st1 = "save_workflow self st"
  let ?st2 = "fold terminate_jobAttempt (queued_jobAttempts jm ?st1) ?st1"
  let ?st3 = "update_terminated_tasks a1 jm ?st2"
  let ?st4 = "update_terminated_stages a2 jm ?st3"
  let ?st5 = "update_terminated_jobAttempts a3 jm ?st4"
  from r jm have e1: "e1 = SystemExit" and self1: "self1 = self\<lparr>w_finished_on := Some a4\<rparr>"
    and s1: "s1 = save_workflow (self\<lparr>w_finished_on := Some a4\<rparr>) ?st5"
    by (auto simp: terminate_def Let_def finished_def)
  show "e1 = SystemExit" by (rule e1)
  show "self1 = self\<lparr>w_finished_on := Some a4\<rparr>" by (rule self1)
  have "queued_jobAttempts jm s1 = queued_jobAttempts jm ?st5"
    by (simp add: s1 save_workflow_def queued_jobAttempts_def)
  then show "queued_jobAttempts jm s1 = []" by simp
  have "stages s1 = stages ?st4"
    by (simp add: s1 save_workflow_def update_terminated_jobAttempts_def)
  then show "\<forall>s\<in>set (stages s1). \<not> s_successful s \<longrightarrow> s_status s = Failed"
    by (auto simp: update_terminated_stages_def)
  have "workflows ?st5 = workflows ?st1"
    by (simp add: update_terminated_jobAttempts_def update_terminated_stages_def
        update_terminated_tasks_def fold_terminate_jobAttempt)
  then show "workflows s1
         = upsert w_id (self\<lparr>w_finished_on := Some a4, w_status := None\<rparr>)
             (upsert w_id (self\<lparr>w_status := None\<rparr>) (workflows st))"
    by (simp add: s1 save_workflow_def)
qed


lemmas terminate_defs = terminate_def Let_def finished_def save_workflow_def upsert_def
  queued_jobAttempts_def terminate_jobAttempt_def update_terminated_tasks_def
  update_terminated_stages_def update_terminated_jobAttempts_def


text \<open>
  C3, as the specification states it: \<^verbatim>\<open>terminate()\<close> on a terminated workflow changes
  no row. On the code it does: the Stage filter \<^verbatim>\<open>Q(successful=False)\<close> selects every
  stage that is not successful, the failed ones of the first call among them, and stamps
  them again, and \<^verbatim>\<open>finished()\<close> stamps the workflow again. With one running task, the
  first call at time 1 leaves \<^verbatim>\<open>finished_on = 1\<close> on the stage and on the workflow, the
  second call at time 2 leaves 2 on both.
\<close>

theorem terminate_twice_counterexample:
  "terminate 1 1 1 1 example_workflow
     (empty_state\<lparr>workflows := [example_workflow],
        stages := [mk_stage 1 In_progress False None],
        tasks := [mk_task 1 1 In_progress False False None],
        job_attempts := [mk_jobAttempt 1 1 Queued False None]\<rparr>)
   = (SystemExit, example_workflow\<lparr>w_finished_on := Some 1\<rparr>,
      empty_state\<lparr>workflows := [example_workflow\<lparr>w_finished_on := Some 1\<rparr>],
        stages := [mk_stage 1 Failed False (Some 1)],
        tasks := [mk_task 1 1 Failed False False (Some 1)],
        job_attempts := [mk_jobAttempt 1 1 Completed False (Some 1)],
        drm_killed := [1]\<rparr>)
   \<and> terminate 2 2 2 2 (example_workflow\<lparr>w_finished_on := Some 1\<rparr>)
       (empty_state\<lparr>workflows := [example_workflow\<lparr>w_finished_on := Some 1\<rparr>],
          stages := [mk_stage 1 Failed False (Some 1)],
          tasks := [mk_task 1 1 Failed False False (Some 1)],
          job_attempts := [mk_jobAttempt 1 1 Completed False (Some 1)],
          drm_killed := [1]\<rparr>)
   = (SystemExit, example_workflow\<lparr>w_finished_on := Some 2\<rparr>,
      empty_state\<lparr>workflows := [example_workflow\<lparr>w_finished_on := Some 2\<rparr>],
        stages := [mk_stage 1 Failed False (Some 2)],
        tasks := [mk_task 1 1 Failed False False (Some 1)],
        job_attempts := [mk_jobAttempt 1 1 Completed False (Some 1)],
        drm_killed := [1]\<rparr>)
   \<and> mk_stage 1 Failed False (Some 1) \<noteq> mk_stage 1 Failed False (Some 2)
   \<and> example_workflow\<lparr>w_finished_on := Some 1\<rparr> \<noteq> example_workflow\<lparr>w_finished_on := Some 2\<rparr>"
  by code_simp


text \<open>
  C3, amended: after a \<^verbatim>\<open>terminate()\<close> that reached \<^verbatim>\<open>sys.exit\<close>, a second
  \<^verbatim>\<open>terminate()\<close> on the same workflow (the object of the first call, or the row read back,
  which differ in the attribute \<^verbatim>\<open>status\<close> at most) sends no kill request, changes no
  Task row, no JobAttempt row and no status column; it sets \<^verbatim>\<open>finished_on\<close> of every
  Stage with \<^verbatim>\<open>successful = False\<close> and of the workflow to the clock readings of the
  second call, and changes nothing else.
\<close>

theorem terminate_twice:
  assumes jm: "w_jobManager self = Some jm"
    and r1: "terminate a1 a2 a3 a4 self st = (e1, self1, s1)"
    and r2: "terminate b1 b2 b3 b4 (self1\<lparr>w_status := x\<rparr>) s1 = (e2, self2, s2)"
  shows "e2 = SystemExit
       \<and> tasks s2 = tasks s1
       \<and> job_attempts s2 = job_attempts s1
       \<and> drm_killed s2 = drm_killed s1
       \<and> map s_status (stages s2) = map s_status (stages s1)
       \<and> stages s2 = map (\<lambda>s. if s_successful s then s else s\<lparr>s_finished_on := Some b2\<rparr>) (stages s1)
       \<and> workflows s2
           = map (\<lambda>w. if w_id w = w_id self then w\<lparr>w_finished_on := Some b4\<rparr> else w) (workflows s1)
       \<and> self2 = self1\<lparr>w_status := x, w_finished_on := Some b4\<rparr>"
proof -
  note first = terminate_first[OF jm r1]
  let ?row1 = "self\<lparr>w_finished_on := Some a4, w_status := None\<rparr>"
  let ?row2 = "self\<lparr>w_finished_on := Some b4, w_status := None\<rparr>"
  have q: "queued_jobAttempts jm s1 = []" by (rule first(3))
  have wrows: "workflows s1 = upsert w_id ?row1 (upsert w_id (self\<lparr>w_status := None\<rparr>) (workflows st))"
    by (rule first(5))
  have sv: "save_workflow (self1\<lparr>w_status := x\<rparr>) s1 = s1"
  proof -
    have "upsert w_id ?row1 (workflows s1) = workflows s1"
      unfolding wrows by (simp add: upsert_upsert)
    then show ?thesis by (simp add: save_workflow_def first(2))
  qed
  have t3: "update_terminated_tasks b1 jm s1 = s1"
    by (simp add: update_terminated_tasks_def q)
  let ?s4 = "update_terminated_stages b2 jm s1"
  have st4: "stages ?s4 = map (\<lambda>s. if s_successful s then s else s\<lparr>s_finished_on := Some b2\<rparr>) (stages s1)"
  proof -
    have "\<And>s. s \<in> set (stages s1) \<Longrightarrow> \<not> s_successful s \<Longrightarrow> s\<lparr>s_status := Failed, s_finished_on := Some b2\<rparr> = s\<lparr>s_finished_on := Some b2\<rparr>"
      using first(4) by simp
    then show ?thesis by (auto simp: update_terminated_stages_def q)
  qed
  have q4: "queued_jobAttempts jm ?s4 = []"
    using q by (simp add: queued_jobAttempts_def update_terminated_stages_def)
  have t5: "update_terminated_jobAttempts b3 jm ?s4 = ?s4"
  proof -
    have "filter (\<lambda>ja. ja_jobManager ja = jm \<and> ja_queue_status ja = Queued) (job_attempts ?s4) = []"
      using q4 by (simp add: queued_jobAttempts_def)
    from map_if_none[OF this] show ?thesis by (simp add: update_terminated_jobAttempts_def)
  qed
  have jm1: "w_jobManager (self1\<lparr>w_status := x\<rparr>) = Some jm" using jm first(2) by simp
  have call: "terminate b1 b2 b3 b4 (self1\<lparr>w_status := x\<rparr>) s1
      = (SystemExit, self1\<lparr>w_status := x, w_finished_on := Some b4\<rparr>,
         save_workflow (self1\<lparr>w_status := x, w_finished_on := Some b4\<rparr>) ?s4)"
    by (simp add: terminate_def Let_def jm1 sv q t3 t5 finished_def)
  have s2: "s2 = save_workflow (self1\<lparr>w_status := x, w_finished_on := Some b4\<rparr>) ?s4"
    and e2: "e2 = SystemExit" and self2: "self2 = self1\<lparr>w_status := x, w_finished_on := Some b4\<rparr>"
    using r2 call by auto
  have w4: "workflows ?s4 = workflows s1" by (simp add: update_terminated_stages_def)
  have pres: "w_id ?row2 \<in> w_id ` set (workflows s1)"
    using key_in_upsert[of w_id ?row1] by (simp add: wrows)
  have "workflows s2 = upsert w_id ?row2 (workflows s1)"
    by (simp add: s2 save_workflow_def w4 first(2))
  also have "\<dots> = map (\<lambda>w. if w_id w = w_id ?row2 then ?row2 else w) (workflows s1)"
    by (rule upsert_present_map[OF pres])
  also have "\<dots> = map (\<lambda>w. if w_id w = w_id self then w\<lparr>w_finished_on := Some b4\<rparr> else w) (workflows s1)"
  proof (intro map_cong refl)
    fix w assume w: "w \<in> set (workflows s1)"
    show "(if w_id w = w_id ?row2 then ?row2 else w) = (if w_id w = w_id self then w\<lparr>w_finished_on := Some b4\<rparr> else w)"
    proof (cases "w_id w = w_id self")
      case True
      then have "w = ?row1" using w upsert_same_key[of w w_id ?row1] by (simp add: wrows)
      then show ?thesis by simp
    next
      case False
      then show ?thesis by simp
    qed
  qed
  finally have wf2: "workflows s2 = map (\<lambda>w. if w_id w = w_id self then w\<lparr>w_finished_on := Some b4\<rparr> else w) (workflows s1)" .
  have stg: "stages s2 = map (\<lambda>s. if s_successful s then s else s\<lparr>s_finished_on := Some b2\<rparr>) (stages s1)"
    by (simp add: s2 save_workflow_def st4)
  have "map s_status (stages s2) = map s_status (stages s1)"
    by (simp add: stg comp_def if_distrib cong: if_cong)
  moreover have "tasks s2 = tasks s1" "job_attempts s2 = job_attempts s1" "drm_killed s2 = drm_killed s1"
    by (simp_all add: s2 save_workflow_def update_terminated_stages_def)
  ultimately show ?thesis using e2 self2 stg wf2 by simp
qed


theorem terminate_twice_witness:
  "w_jobManager example_workflow = Some 1
   \<and> (\<exists>e1 self1 s1 e2 self2 s2.
        terminate 1 2 3 4 example_workflow
          (empty_state\<lparr>workflows := [example_workflow],
             stages := [mk_stage 1 In_progress False None],
             tasks := [mk_task 1 1 In_progress False False None],
             job_attempts := [mk_jobAttempt 1 1 Queued False None]\<rparr>) = (e1, self1, s1)
      \<and> terminate 5 6 7 8 (self1\<lparr>w_status := None\<rparr>) s1 = (e2, self2, s2)
      \<and> e2 = SystemExit \<and> tasks s2 = tasks s1 \<and> job_attempts s2 = job_attempts s1
      \<and> drm_killed s2 = drm_killed s1
      \<and> map s_status (stages s2) = map s_status (stages s1)
      \<and> map s_finished_on (stages s1) = [Some 2]
      \<and> map s_finished_on (stages s2) = [Some 6])"
proof -
  let ?st = "empty_state\<lparr>workflows := [example_workflow],
             stages := [mk_stage 1 In_progress False None],
             tasks := [mk_task 1 1 In_progress False False None],
             job_attempts := [mk_jobAttempt 1 1 Queued False None]\<rparr>"
  have jm: "w_jobManager example_workflow = Some 1" by (simp add: example_workflow_def)
  obtain e1 self1 s1 where r1: "terminate 1 2 3 4 example_workflow ?st = (e1, self1, s1)"
    by (cases "terminate 1 2 3 4 example_workflow ?st") auto
  obtain e2 self2 s2 where r2: "terminate 5 6 7 8 (self1\<lparr>w_status := None\<rparr>) s1 = (e2, self2, s2)"
    by (cases "terminate 5 6 7 8 (self1\<lparr>w_status := None\<rparr>) s1") auto
  have f1: "map s_finished_on (stages s1) = [Some 2]"
    using r1 by (auto simp: terminate_defs example_defs)
  from terminate_twice[OF jm r1 r2] have t: "e2 = SystemExit" "tasks s2 = tasks s1"
    "job_attempts s2 = job_attempts s1" "drm_killed s2 = drm_killed s1"
    "map s_status (stages s2) = map s_status (stages s1)"
    "stages s2 = map (\<lambda>s. if s_successful s then s else s\<lparr>s_finished_on := Some 6\<rparr>) (stages s1)"
    by simp_all
  have "\<forall>s\<in>set (stages s1). \<not> s_successful s"
    using r1 by (auto simp: terminate_defs example_defs)
  then have f2: "map s_finished_on (stages s2) = map (\<lambda>_. Some 6) (stages s1)"
    by (simp add: t(6))
  have "length (stages s1) = 1" using f1 by (metis length_map length_Cons list.size(3) One_nat_def)
  then have "map (\<lambda>_. Some (6::nat)) (stages s1) = [Some 6]"
    by (cases "stages s1") auto
  with f2 have f2': "map s_finished_on (stages s2) = [Some 6]" by simp
  show ?thesis
    by (intro conjI exI) (rule jm r1 r2 t(1-5) f1 f2')+
qed

section \<open>The scheduler: \<^verbatim>\<open>WorkflowManager\<close> over a \<^verbatim>\<open>networkx.DiGraph\<close>\<close>

text \<open>
  The graph is the \<^verbatim>\<open>DiGraph\<close> of networkx 1.x as the source uses it: \<^verbatim>\<open>g_nodes\<close> are the
  keys of \<^verbatim>\<open>dag.node\<close> in the order of insertion, \<^verbatim>\<open>g_node n\<close> is the attribute dictionary
  of node \<^verbatim>\<open>n\<close> (each of the keys \<^verbatim>\<open>tags\<close>, \<^verbatim>\<open>status\<close>, \<^verbatim>\<open>stage\<close>,
  \<^verbatim>\<open>cleared_output_files\<close> present or not; the key \<^verbatim>\<open>url\<close>, read only when the graph is
  drawn, is left out), \<^verbatim>\<open>g_edges\<close> the directed edges, each once. The library's
  behaviour is modelled as documented: \<^verbatim>\<open>add_edges_from\<close> adds the end points of an edge
  as nodes without attributes, \<^verbatim>\<open>add_node\<close> updates the attributes it is given,
  \<^verbatim>\<open>remove_node\<close> removes the node with its edges and raises \<^verbatim>\<open>NetworkXError\<close> for a node
  that is not in the graph, \<^verbatim>\<open>remove_nodes_from\<close> skips such a node silently,
  \<^verbatim>\<open>successors\<close> and \<^verbatim>\<open>predecessors\<close> raise \<^verbatim>\<open>NetworkXError\<close> for it, and reading a
  missing key of a dictionary raises \<^verbatim>\<open>KeyError\<close>. \<^verbatim>\<open>dag.copy()\<close> is the graph itself, a
  value.
\<close>

record node_attrs =
  na_tags :: "(string \<times> string) list option"
  na_status :: "status option"
  na_stage :: "string option"
  na_cleared_output_files :: "bool option"

definition no_attrs :: node_attrs where
  "no_attrs = \<lparr>na_tags = None, na_status = None, na_stage = None, na_cleared_output_files = None\<rparr>"

record DiGraph =
  g_nodes :: "nat list"
  g_node :: "nat \<Rightarrow> node_attrs"
  g_edges :: "(nat \<times> nat) list"

definition empty_DiGraph :: DiGraph where
  "empty_DiGraph = \<lparr>g_nodes = [], g_node = (\<lambda>_. no_attrs), g_edges = []\<rparr>"

definition touch_node :: "nat \<Rightarrow> DiGraph \<Rightarrow> DiGraph" where
  "touch_node n g = (if n \<in> set (g_nodes g) then g else g\<lparr>g_nodes := g_nodes g @ [n]\<rparr>)"

definition add_edge :: "nat \<times> nat \<Rightarrow> DiGraph \<Rightarrow> DiGraph" where
  "add_edge e g =
     (let g' = touch_node (snd e) (touch_node (fst e) g)
      in if e \<in> set (g_edges g') then g' else g'\<lparr>g_edges := g_edges g' @ [e]\<rparr>)"

definition add_edges_from :: "(nat \<times> nat) list \<Rightarrow> DiGraph \<Rightarrow> DiGraph" where
  "add_edges_from es g = fold add_edge es g"

definition add_node :: "nat \<Rightarrow> node_attrs \<Rightarrow> DiGraph \<Rightarrow> DiGraph" where
  "add_node n a g =
     (let g' = touch_node n g;
          old = g_node g' n
      in g'\<lparr>g_node := (g_node g')(n :=
            \<lparr>na_tags = (case na_tags a of None \<Rightarrow> na_tags old | Some x \<Rightarrow> Some x),
             na_status = (case na_status a of None \<Rightarrow> na_status old | Some x \<Rightarrow> Some x),
             na_stage = (case na_stage a of None \<Rightarrow> na_stage old | Some x \<Rightarrow> Some x),
             na_cleared_output_files =
               (case na_cleared_output_files a of None \<Rightarrow> na_cleared_output_files old
                | Some x \<Rightarrow> Some x)\<rparr>)\<rparr>)"

definition drop_node :: "nat \<Rightarrow> DiGraph \<Rightarrow> DiGraph" where
  "drop_node n g =
     g\<lparr>g_nodes := removeAll n (g_nodes g),
       g_node := (g_node g)(n := no_attrs),
       g_edges := filter (\<lambda>e. fst e \<noteq> n \<and> snd e \<noteq> n) (g_edges g)\<rparr>"

definition remove_node :: "nat \<Rightarrow> DiGraph \<Rightarrow> error + DiGraph" where
  "remove_node n g = (if n \<in> set (g_nodes g) then Inr (drop_node n g) else Inl NetworkXError)"

definition remove_nodes_from :: "nat list \<Rightarrow> DiGraph \<Rightarrow> DiGraph" where
  "remove_nodes_from ns g = fold (\<lambda>n g. if n \<in> set (g_nodes g) then drop_node n g else g) ns g"

definition in_degree_of :: "DiGraph \<Rightarrow> nat \<Rightarrow> nat" where
  "in_degree_of g n = length (filter (\<lambda>e. snd e = n) (g_edges g))"

definition in_degree :: "DiGraph \<Rightarrow> (nat \<times> nat) list" where
  "in_degree g = map (\<lambda>n. (n, in_degree_of g n)) (g_nodes g)"

definition successors :: "DiGraph \<Rightarrow> nat \<Rightarrow> error + nat list" where
  "successors g n =
     (if n \<in> set (g_nodes g) then Inr (map snd (filter (\<lambda>e. fst e = n) (g_edges g)))
      else Inl NetworkXError)"

definition predecessors :: "DiGraph \<Rightarrow> nat \<Rightarrow> error + nat list" where
  "predecessors g n =
     (if n \<in> set (g_nodes g) then Inr (map fst (filter (\<lambda>e. snd e = n) (g_edges g)))
      else Inl NetworkXError)"

definition node_attr :: "(node_attrs \<Rightarrow> 'a option) \<Rightarrow> DiGraph \<Rightarrow> nat \<Rightarrow> error + 'a" where
  "node_attr field g n =
     (if n \<in> set (g_nodes g) then (case field (g_node g n) of None \<Rightarrow> Inl KeyError | Some v \<Rightarrow> Inr v)
      else Inl KeyError)"

text \<open>
  \<^verbatim>\<open>WorkflowManager\<close>: the full graph, the working copy and the ids already dispatched.
  Its field \<^verbatim>\<open>workflow\<close> is the workflow object of the caller, passed to the functions
  that read it. \<^verbatim>\<open>Workflow.stages\<close>, \<^verbatim>\<open>Stage.tasks\<close>, \<^verbatim>\<open>Workflow.tasks\<close> and
  \<^verbatim>\<open>Workflow.task_edges\<close> are the querysets of the properties of these names.
\<close>

record WorkflowManager =
  dag :: DiGraph
  dag_queue :: DiGraph
  queued_tasks :: "nat list"

definition Workflow_stages :: "Workflow \<Rightarrow> State \<Rightarrow> Stage list" where
  "Workflow_stages self st = filter (\<lambda>s. s_workflow s = w_id self) (stages st)"

definition Stage_tasks :: "Stage \<Rightarrow> State \<Rightarrow> Task list" where
  "Stage_tasks s st = filter (\<lambda>t. t_stage t = s_id s) (tasks st)"

definition Workflow_tasks :: "Workflow \<Rightarrow> State \<Rightarrow> Task list" where
  "Workflow_tasks self st =
     filter (\<lambda>t. t_stage t \<in> s_id ` set (Workflow_stages self st)) (tasks st)"

definition Workflow_task_edges :: "Workflow \<Rightarrow> State \<Rightarrow> TaskEdge list" where
  "Workflow_task_edges self st =
     filter (\<lambda>e. te_parent e \<in> t_id ` set (Workflow_tasks self st)) (task_edges st)"

definition createDiGraph :: "Workflow \<Rightarrow> State \<Rightarrow> DiGraph" where
  "createDiGraph self st =
     (let dag0 = add_edges_from (map (\<lambda>ne. (te_parent ne, te_child ne)) (Workflow_task_edges self st))
                   empty_DiGraph
      in fold (\<lambda>stage g.
                 fold (\<lambda>task. add_node (t_id task)
                         \<lparr>na_tags = Some (t_tags task), na_status = Some (t_status task),
                          na_stage = Some (s_name stage),
                          na_cleared_output_files = Some (t_cleared_output_files task)\<rparr>)
                      (Stage_tasks stage st) g)
              (Workflow_stages self st) dag0)"

definition WorkflowManager_init :: "Workflow \<Rightarrow> State \<Rightarrow> WorkflowManager" where
  "WorkflowManager_init workflow st =
     (let d = createDiGraph workflow st
      in \<lparr>dag = d,
          dag_queue = remove_nodes_from
                        (map t_id (filter (\<lambda>t. t_successful t = True) (Workflow_tasks workflow st))) d,
          queued_tasks = []\<rparr>)"

definition queue_task :: "Task \<Rightarrow> WorkflowManager \<Rightarrow> WorkflowManager" where
  "queue_task task wm = wm\<lparr>queued_tasks := queued_tasks wm @ [t_id task]\<rparr>"

definition get_ready_tasks :: "WorkflowManager \<Rightarrow> State \<Rightarrow> Task list" where
  "get_ready_tasks wm st =
     (let degree_0_tasks = map fst (filter (\<lambda>x. snd x = 0) (in_degree (dag_queue wm)))
      in filter (\<lambda>t. t_id t \<in> set (filter (\<lambda>x. x \<notin> set (queued_tasks wm)) degree_0_tasks))
           (tasks st))"

definition complete_task :: "Task \<Rightarrow> WorkflowManager \<Rightarrow> error + WorkflowManager" where
  "complete_task task wm =
     (case remove_node (t_id task) (dag_queue wm) of
        Inl e \<Rightarrow> Inl e
      | Inr q \<Rightarrow>
          if t_id task \<in> set (g_nodes (dag wm))
          then Inr (wm\<lparr>dag_queue := q,
                       dag := (dag wm)\<lparr>g_node := (g_node (dag wm))
                                (t_id task := (g_node (dag wm) (t_id task))\<lparr>na_status := Some (t_status task)\<rparr>)\<rparr>\<rparr>)
          else Inl KeyError)"

text \<open>
  \<^verbatim>\<open>
  def is_task_intermediate(self,task_id):
      successors = self.dag.successors(task_id)
      if len(self.dag.predecessors(task_id)) > 0 and len(successors) > 0:
          return any( self.dag.node[s]['status'] == 'successful' for s in successors )
  \<close>
  \<^verbatim>\<open>any\<close> stops at the first successor that is successful; a successor without the key
  \<^verbatim>\<open>status\<close> met before that raises \<^verbatim>\<open>KeyError\<close>. The function returns \<^verbatim>\<open>None\<close> when the
  condition of the \<^verbatim>\<open>if\<close> fails.
\<close>

fun any_successful :: "DiGraph \<Rightarrow> nat list \<Rightarrow> error + bool" where
  "any_successful g [] = Inr False"
| "any_successful g (s # ss) =
     (case node_attr na_status g s of
        Inl e \<Rightarrow> Inl e
      | Inr status \<Rightarrow> if status = Successful then Inr True else any_successful g ss)"

definition is_task_intermediate :: "WorkflowManager \<Rightarrow> nat \<Rightarrow> error + bool option" where
  "is_task_intermediate wm task_id =
     (case successors (dag wm) task_id of
        Inl e \<Rightarrow> Inl e
      | Inr succs \<Rightarrow>
          (case predecessors (dag wm) task_id of
             Inl e \<Rightarrow> Inl e
           | Inr preds \<Rightarrow>
               if length preds > 0 \<and> length succs > 0
               then (case any_successful (dag wm) succs of Inl e \<Rightarrow> Inl e | Inr b \<Rightarrow> Inr (Some b))
               else Inr None))"

definition mk_edge :: "nat \<Rightarrow> nat \<Rightarrow> nat \<Rightarrow> TaskEdge" where
  "mk_edge i p c = \<lparr>te_id = i, te_parent = p, te_child = c\<rparr>"

definition example_chain :: "bool \<Rightarrow> bool \<Rightarrow> bool \<Rightarrow> State" where
  "example_chain a b c =
     empty_state\<lparr>workflows := [example_workflow],
       stages := [mk_stage 1 In_progress False None],
       tasks := [mk_task 1 1 (if a then Successful else No_attempt) a False None,
                 mk_task 2 1 (if b then Successful else No_attempt) b False None,
                 mk_task 3 1 (if c then Successful else No_attempt) c False None],
       task_edges := [mk_edge 1 1 2, mk_edge 2 2 3]\<rparr>"


lemmas graph_defs = WorkflowManager_init_def createDiGraph_def Workflow_task_edges_def
  Workflow_tasks_def Workflow_stages_def Stage_tasks_def add_edges_from_def add_edge_def
  touch_node_def add_node_def remove_nodes_from_def drop_node_def empty_DiGraph_def no_attrs_def
  Let_def mk_edge_def example_chain_def example_defs

lemma example_dag:
  "g_nodes (dag (WorkflowManager_init example_workflow (example_chain True True True))) = [1, 2, 3]"
  "g_edges (dag (WorkflowManager_init example_workflow (example_chain True True True))) = [(1, 2), (2, 3)]"
  "na_status (g_node (dag (WorkflowManager_init example_workflow (example_chain True True True))) 3) = Some Successful"
  by (simp_all add: graph_defs)

subsection \<open>Which tasks are intermediate\<close>

lemma any_successful_annotated:
  assumes "\<forall>s\<in>set ss. s \<in> set (g_nodes g) \<and> na_status (g_node g s) \<noteq> None"
  shows "any_successful g ss = Inr (\<exists>s\<in>set ss. na_status (g_node g s) = Some Successful)"
  using assms
proof (induction ss)
  case Nil
  show ?case by simp
next
  case (Cons s ss)
  then obtain v where v: "na_status (g_node g s) = Some v" and s: "s \<in> set (g_nodes g)" by auto
  from Cons have IH: "any_successful g ss = Inr (\<exists>s\<in>set ss. na_status (g_node g s) = Some Successful)"
    by simp
  show ?case using v s IH by (simp add: node_attr_def)
qed

text \<open>
  C4: for a node of the graph whose successors carry a status (they are tasks of the
  workflow, annotated by \<^verbatim>\<open>createDiGraph\<close>), \<^verbatim>\<open>is_task_intermediate\<close> returns \<^verbatim>\<open>True\<close>
  exactly when the node has a predecessor, a successor, and a successor whose status is
  \<^verbatim>\<open>successful\<close>; it raises nothing; and a node without successors is never classified
  intermediate, whatever its predecessors are.
\<close>

theorem is_task_intermediate_iff:
  assumes n: "task_id \<in> set (g_nodes (dag wm))"
    and ann: "\<forall>c. (task_id, c) \<in> set (g_edges (dag wm))
                \<longrightarrow> c \<in> set (g_nodes (dag wm)) \<and> na_status (g_node (dag wm) c) \<noteq> None"
  shows "((is_task_intermediate wm task_id = Inr (Some True)) \<longleftrightarrow>
            ((\<exists>p. (p, task_id) \<in> set (g_edges (dag wm)))
           \<and> (\<exists>c. (task_id, c) \<in> set (g_edges (dag wm)))
           \<and> (\<exists>c. (task_id, c) \<in> set (g_edges (dag wm))
                   \<and> na_status (g_node (dag wm) c) = Some Successful)))
       \<and> is_task_intermediate wm task_id \<in> {Inr None, Inr (Some False), Inr (Some True)}
       \<and> ((\<forall>c. (task_id, c) \<notin> set (g_edges (dag wm)))
            \<longrightarrow> is_task_intermediate wm task_id = Inr None)"
proof -
  let ?g = "dag wm"
  let ?succs = "map snd (filter (\<lambda>e. fst e = task_id) (g_edges ?g))"
  let ?preds = "map fst (filter (\<lambda>e. snd e = task_id) (g_edges ?g))"
  have s: "successors ?g task_id = Inr ?succs" and p: "predecessors ?g task_id = Inr ?preds"
    using n by (simp_all add: successors_def predecessors_def)
  have ss: "set ?succs = {c. (task_id, c) \<in> set (g_edges ?g)}" by force
  have ps: "set ?preds = {q. (q, task_id) \<in> set (g_edges ?g)}" by force
  have "\<forall>c\<in>set ?succs. c \<in> set (g_nodes ?g) \<and> na_status (g_node ?g c) \<noteq> None"
    using ann unfolding ss by blast
  from any_successful_annotated[OF this]
  have a: "any_successful ?g ?succs = Inr (\<exists>c. (task_id, c) \<in> set (g_edges ?g) \<and> na_status (g_node ?g c) = Some Successful)"
    unfolding ss by (simp add: Bex_def)
  have ne_s: "(length ?succs > 0) = (\<exists>c. (task_id, c) \<in> set (g_edges ?g))"
    using ss by (metis (mono_tags, lifting) Collect_empty_eq length_greater_0_conv set_empty)
  have ne_p: "(length ?preds > 0) = (\<exists>q. (q, task_id) \<in> set (g_edges ?g))"
    using ps by (metis (mono_tags, lifting) Collect_empty_eq length_greater_0_conv set_empty)
  have val: "is_task_intermediate wm task_id =
      (if (\<exists>q. (q, task_id) \<in> set (g_edges ?g)) \<and> (\<exists>c. (task_id, c) \<in> set (g_edges ?g))
       then Inr (Some (\<exists>c. (task_id, c) \<in> set (g_edges ?g) \<and> na_status (g_node ?g c) = Some Successful))
       else Inr None)"
    unfolding is_task_intermediate_def s p by (simp only: sum.case a ne_s ne_p)
  show ?thesis unfolding val by auto
qed

theorem is_task_intermediate_iff_witness:
  "2 \<in> set (g_nodes (dag (WorkflowManager_init example_workflow (example_chain True True True))))
   \<and> is_task_intermediate (WorkflowManager_init example_workflow (example_chain True True True)) 2
       = Inr (Some True)
   \<and> is_task_intermediate (WorkflowManager_init example_workflow (example_chain True True True)) 3
       = Inr None"
proof -
  let ?wm = "WorkflowManager_init example_workflow (example_chain True True True)"
  have n2: "2 \<in> set (g_nodes (dag ?wm))" and n3: "3 \<in> set (g_nodes (dag ?wm))"
    by (simp_all add: example_dag)
  have a2: "\<forall>c. (2, c) \<in> set (g_edges (dag ?wm))
              \<longrightarrow> c \<in> set (g_nodes (dag ?wm)) \<and> na_status (g_node (dag ?wm) c) \<noteq> None"
    by (simp add: example_dag)
  have a3: "\<forall>c. (3, c) \<in> set (g_edges (dag ?wm))
              \<longrightarrow> c \<in> set (g_nodes (dag ?wm)) \<and> na_status (g_node (dag ?wm) c) \<noteq> None"
    by (simp add: example_dag)
  have "is_task_intermediate ?wm 2 = Inr (Some True)"
    using is_task_intermediate_iff[OF n2 a2] by (simp add: example_dag)
  moreover have "is_task_intermediate ?wm 3 = Inr None"
    using is_task_intermediate_iff[OF n3 a3] by (simp add: example_dag)
  ultimately show ?thesis using n2 by simp
qed

subsection \<open>The frontier\<close>

lemma g_nodes_drop_node: "g_nodes (drop_node n g) = filter (\<lambda>x. x \<noteq> n) (g_nodes g)"
  by (simp add: drop_node_def removeAll_filter_not_eq eq_commute)

lemma g_nodes_remove_nodes_from:
  "g_nodes (remove_nodes_from ns g) = filter (\<lambda>n. n \<notin> set ns) (g_nodes g)"
  unfolding remove_nodes_from_def
proof (induction ns arbitrary: g)
  case Nil
  show ?case by simp
next
  case (Cons n ns)
  show ?case
  proof (cases "n \<in> set (g_nodes g)")
    case True
    then show ?thesis
      by (simp add: Cons.IH g_nodes_drop_node conj_commute)
  next
    case False
    then have "filter (\<lambda>x. x \<noteq> n \<and> x \<notin> set ns) (g_nodes g) = filter (\<lambda>x. x \<notin> set ns) (g_nodes g)"
      by (intro filter_cong) auto
    with False show ?thesis by (simp add: Cons.IH)
  qed
qed

lemma degree_0_tasks:
  "map fst (filter (\<lambda>x. snd x = 0) (in_degree g)) = filter (\<lambda>n. in_degree_of g n = 0) (g_nodes g)"
  by (simp add: in_degree_def filter_map comp_def)

lemma example_queue:
  "g_nodes (dag_queue (WorkflowManager_init example_workflow (example_chain True False False))) = [2, 3]"
  "g_edges (dag_queue (WorkflowManager_init example_workflow (example_chain True False False))) = [(2, 3)]"
  "queued_tasks (WorkflowManager_init example_workflow (example_chain True False False)) = []"
  by (simp_all add: graph_defs)

text \<open>
  C2: \<^verbatim>\<open>get_ready_tasks\<close> returns exactly the Task rows whose id is a node of
  \<^verbatim>\<open>dag_queue\<close>, has in-degree zero there and is not in \<^verbatim>\<open>queued_tasks\<close>, each once and no
  other; the tasks successful at construction are not nodes of \<^verbatim>\<open>dag_queue\<close>, and
  \<^verbatim>\<open>complete_task\<close> removes the node of its task from it.
\<close>

theorem get_ready_tasks_exact:
  "get_ready_tasks wm st
     = filter (\<lambda>t. t_id t \<in> set (g_nodes (dag_queue wm))
                  \<and> in_degree_of (dag_queue wm) (t_id t) = 0
                  \<and> t_id t \<notin> set (queued_tasks wm)) (tasks st)
   \<and> set (get_ready_tasks wm st)
     = {t \<in> set (tasks st). t_id t \<in> set (g_nodes (dag_queue wm))
                  \<and> in_degree_of (dag_queue wm) (t_id t) = 0
                  \<and> t_id t \<notin> set (queued_tasks wm)}
   \<and> (\<forall>t\<in>set (Workflow_tasks workflow st). t_successful t \<longrightarrow>
         t_id t \<notin> set (g_nodes (dag_queue (WorkflowManager_init workflow st))))
   \<and> (\<forall>task wm'. complete_task task wm = Inr wm' \<longrightarrow>
         g_nodes (dag_queue wm') = filter (\<lambda>n. n \<noteq> t_id task) (g_nodes (dag_queue wm))
       \<and> queued_tasks wm' = queued_tasks wm)"
proof -
  have eq: "get_ready_tasks wm st
     = filter (\<lambda>t. t_id t \<in> set (g_nodes (dag_queue wm))
                  \<and> in_degree_of (dag_queue wm) (t_id t) = 0
                  \<and> t_id t \<notin> set (queued_tasks wm)) (tasks st)"
    unfolding get_ready_tasks_def Let_def degree_0_tasks
    by (intro filter_cong refl) auto
  have init: "\<forall>t\<in>set (Workflow_tasks workflow st). t_successful t \<longrightarrow>
         t_id t \<notin> set (g_nodes (dag_queue (WorkflowManager_init workflow st)))"
    by (auto simp: WorkflowManager_init_def Let_def g_nodes_remove_nodes_from)
  have compl: "\<forall>task wm'. complete_task task wm = Inr wm' \<longrightarrow>
         g_nodes (dag_queue wm') = filter (\<lambda>n. n \<noteq> t_id task) (g_nodes (dag_queue wm))
       \<and> queued_tasks wm' = queued_tasks wm"
    by (auto simp: complete_task_def remove_node_def g_nodes_drop_node split: if_splits)
  show ?thesis using eq init compl by simp
qed

theorem get_ready_tasks_exact_witness:
  "mk_task 1 1 Successful True False None
     \<in> set (Workflow_tasks example_workflow (example_chain True False False))
   \<and> t_successful (mk_task 1 1 Successful True False None)
   \<and> 1 \<notin> set (g_nodes (dag_queue (WorkflowManager_init example_workflow (example_chain True False False))))
   \<and> get_ready_tasks (WorkflowManager_init example_workflow (example_chain True False False))
        (example_chain True False False) = [mk_task 2 1 No_attempt False False None]"
proof -
  let ?st = "example_chain True False False"
  let ?wm = "WorkflowManager_init example_workflow ?st"
  let ?t = "mk_task 1 1 Successful True False None"
  have m: "?t \<in> set (Workflow_tasks example_workflow ?st)" and s: "t_successful ?t"
    by (simp_all add: Workflow_tasks_def Workflow_stages_def example_chain_def example_defs)
  have id: "t_id ?t = 1" by (simp add: mk_task_def)
  note main = get_ready_tasks_exact[of ?wm ?st example_workflow]
  from main m s have "t_id ?t \<notin> set (g_nodes (dag_queue ?wm))" by blast
  then have "1 \<notin> set (g_nodes (dag_queue ?wm))" by (simp add: mk_task_def)
  moreover have "get_ready_tasks ?wm ?st = [mk_task 2 1 No_attempt False False None]"
    using main by (simp add: example_queue in_degree_of_def) (simp add: example_chain_def example_defs)
  ultimately show ?thesis using m s by simp
qed

section \<open>The intermediate garbage collector\<close>

text \<open>
  From here on a function that can raise after it has written returns a \<^verbatim>\<open>result\<close>:
  the value and the state, or the exception and the state at the raise (what was written
  before an exception stays written).

  \<^verbatim>\<open>
  def clear_job_output_dir(self):
      if not self.dont_delete_output_files:
          self.log.info('Clearing outputs for {0}'.format(self))
          os.system('rm -rf {0}'.format(os.path.join(self.job_output_dir,'*')))
      self.cleared_output_files = True
      self.save()
      return self
  \<close>
  \<^verbatim>\<open>Task.output_dir\<close> is \<^verbatim>\<open>os.path.join(self.stage.output_dir,str(self.id))\<close> and
  \<^verbatim>\<open>job_output_dir\<close> is \<^verbatim>\<open>os.path.join(self.output_dir,'out')\<close>; reading the stage and its
  workflow through the foreign keys raises \<^verbatim>\<open>DoesNotExist\<close> when the row is missing. The
  file system is the list of the paths that exist; \<^verbatim>\<open>rm -rf d/*\<close> removes the entries of
  \<^verbatim>\<open>d\<close> whose name does not start with a dot (the shell's \<^verbatim>\<open>*\<close> skips those) and all
  that is below them. The path is taken as one word of the shell command: a path
  with a blank or another character the shell interprets is outside this model. The
  directories that \<^verbatim>\<open>Stage.__init__\<close> and \<^verbatim>\<open>Workflow.__init__\<close> create when \<^verbatim>\<open>task.stage\<close>
  and \<^verbatim>\<open>stage.workflow\<close> are read are not recorded in the file system of the model.

  \<^verbatim>\<open>
  def clear_intermediate_tasks(self):
      intermediate_tasks = []
      nodes_not_cleared = [x[0] for x in filter(lambda x: not x[1]['cleared_output_files'],self.dag.node.items())]
      for task_id in nodes_not_cleared:
          if self.is_task_intermediate(task_id):
              intermediate_tasks.append(task_id)
      for task in self.workflow.tasks.filter(id__in=intermediate_tasks):
          task.clear_job_output_dir()
          self.dag.node[task.id]['cleared_output_files'] = True
  \<close>
\<close>

datatype 'a result = Ok 'a State | Raise error State

definition save_task :: "Task \<Rightarrow> State \<Rightarrow> State" where
  "save_task t st = st\<lparr>tasks := upsert t_id t (tasks st)\<rparr>"

definition digit_char :: "nat \<Rightarrow> char" where
  "digit_char d = char_of (48 + d)"

fun str_nat :: "nat \<Rightarrow> string" where
  "str_nat n = (if n < 10 then [digit_char n] else str_nat (n div 10) @ [digit_char (n mod 10)])"

definition Task_output_dir :: "Task \<Rightarrow> State \<Rightarrow> string result" where
  "Task_output_dir self st =
     (case find (\<lambda>s. s_id s = t_stage self) (stages st) of
        None \<Rightarrow> Raise DoesNotExist st
      | Some stage \<Rightarrow>
          (case find (\<lambda>w. w_id w = s_workflow stage) (workflows st) of
             None \<Rightarrow> Raise DoesNotExist st
           | Some workflow \<Rightarrow> Ok (path_join (Stage_output_dir workflow stage) (str_nat (t_id self))) st))"

definition Task_job_output_dir :: "Task \<Rightarrow> State \<Rightarrow> string result" where
  "Task_job_output_dir self st =
     (case Task_output_dir self st of
        Raise e s \<Rightarrow> Raise e s
      | Ok d s \<Rightarrow> Ok (path_join d ''out'') s)"

definition rm_rf_glob :: "string \<Rightarrow> string list \<Rightarrow> string list" where
  "rm_rf_glob d paths =
     filter (\<lambda>p. \<not> (prefix (d @ ''/'') p
                     \<and> drop (length d + 1) p \<noteq> []
                     \<and> hd (drop (length d + 1) p) \<noteq> CHR ''.'')) paths"

definition clear_job_output_dir :: "Task \<Rightarrow> State \<Rightarrow> Task result" where
  "clear_job_output_dir self st =
     (case (if \<not> t_dont_delete_output_files self
            then (case Task_job_output_dir self st of
                    Raise e s \<Rightarrow> Raise e s
                  | Ok d s \<Rightarrow> Ok () (s\<lparr>fs := rm_rf_glob d (fs s)\<rparr>))
            else Ok () st) of
        Raise e s \<Rightarrow> Raise e s
      | Ok _ st1 \<Rightarrow>
          (let self' = self\<lparr>t_cleared_output_files := True\<rparr>
           in Ok self' (save_task self' st1)))"

fun nodes_not_cleared :: "DiGraph \<Rightarrow> nat list \<Rightarrow> error + nat list" where
  "nodes_not_cleared g [] = Inr []"
| "nodes_not_cleared g (n # ns) =
     (case node_attr na_cleared_output_files g n of
        Inl e \<Rightarrow> Inl e
      | Inr cleared \<Rightarrow>
          (case nodes_not_cleared g ns of
             Inl e \<Rightarrow> Inl e
           | Inr rest \<Rightarrow> Inr (if \<not> cleared then n # rest else rest)))"

fun intermediate_tasks :: "WorkflowManager \<Rightarrow> nat list \<Rightarrow> error + nat list" where
  "intermediate_tasks wm [] = Inr []"
| "intermediate_tasks wm (task_id # ns) =
     (case is_task_intermediate wm task_id of
        Inl e \<Rightarrow> Inl e
      | Inr r \<Rightarrow>
          (case intermediate_tasks wm ns of
             Inl e \<Rightarrow> Inl e
           | Inr rest \<Rightarrow> Inr (if r = Some True then task_id # rest else rest)))"

definition set_cleared :: "nat \<Rightarrow> WorkflowManager \<Rightarrow> WorkflowManager" where
  "set_cleared n wm =
     wm\<lparr>dag := (dag wm)\<lparr>g_node := (g_node (dag wm))
            (n := (g_node (dag wm) n)\<lparr>na_cleared_output_files := Some True\<rparr>)\<rparr>\<rparr>"

fun clear_tasks :: "Task list \<Rightarrow> WorkflowManager \<Rightarrow> State \<Rightarrow> WorkflowManager result" where
  "clear_tasks [] wm st = Ok wm st"
| "clear_tasks (task # ts) wm st =
     (case clear_job_output_dir task st of
        Raise e s \<Rightarrow> Raise e s
      | Ok task' st1 \<Rightarrow>
          if t_id task' \<in> set (g_nodes (dag wm)) then clear_tasks ts (set_cleared (t_id task') wm) st1
          else Raise KeyError st1)"

definition clear_intermediate_tasks :: "Workflow \<Rightarrow> WorkflowManager \<Rightarrow> State \<Rightarrow> WorkflowManager result" where
  "clear_intermediate_tasks workflow wm st =
     (case nodes_not_cleared (dag wm) (g_nodes (dag wm)) of
        Inl e \<Rightarrow> Raise e st
      | Inr not_cleared \<Rightarrow>
          (case intermediate_tasks wm not_cleared of
             Inl e \<Rightarrow> Raise e st
           | Inr its \<Rightarrow>
               clear_tasks (filter (\<lambda>t. t_id t \<in> set its) (Workflow_tasks workflow st)) wm st))"
















section \<open>\<^verbatim>\<open>TaskFile.__init__\<close>: the format of a file\<close>

text \<open>
  \<^verbatim>\<open>
  def __init__(self,*args,**kwargs):
      super(TaskFile,self).__init__(*args,**kwargs)
      if not self.fmt and self.path:
          try:
              groups = re.search('.+\.([^\.]+\.gz)$|\.([^\.]+)$',self.path).groups()
              self.fmt = groups[0] if groups[0] else groups[1]
          except AttributeError as e:
              raise AttributeError(...)
      if not self.name and self.fmt:
          self.name = self.fmt
      self.tmp_id = get_tmp_id()
  \<close>
  \<^verbatim>\<open>re.search\<close> is modelled as Python's backtracking matcher runs this pattern: the start
  positions from left to right; at each the first alternative, then the second; \<^verbatim>\<open>.+\<close>
  and \<^verbatim>\<open>[^\.]+\<close> greedy, the longest candidate first (\<^verbatim>\<open>first_some\<close> returns the first
  candidate that matches); \<^verbatim>\<open>.\<close> matches every character but the newline, \<^verbatim>\<open>[^\.]\<close>
  every character but the dot, \<^verbatim>\<open>$\<close> the end of the string and the position before a
  newline that ends the string. The result holds the two groups. A string is truthy when it
  is neither \<^verbatim>\<open>None\<close> nor empty. The module's counter \<^verbatim>\<open>i\<close> behind \<^verbatim>\<open>get_tmp_id\<close> is
  passed in and returned.
\<close>

primrec first_some :: "('a \<Rightarrow> 'b option) \<Rightarrow> 'a list \<Rightarrow> 'b option" where
  "first_some f [] = None"
| "first_some f (x # xs) = (case f x of Some y \<Rightarrow> Some y | None \<Rightarrow> first_some f xs)"

definition newline :: char where
  "newline = CHR 0x0A"

definition at_end :: "string \<Rightarrow> bool" where
  "at_end r = (r = [] \<or> r = [newline])"

definition group1_at :: "string \<Rightarrow> nat \<Rightarrow> string option" where
  "group1_at u m =
     (if CHR ''.'' \<notin> set (take m u) \<and> take 3 (drop m u) = ''.gz'' \<and> at_end (drop 3 (drop m u))
      then Some (take m u @ ''.gz'') else None)"

definition match_group1 :: "string \<Rightarrow> string option" where
  "match_group1 u = first_some (group1_at u) (rev [1..<Suc (length u)])"

definition alt1_at :: "string \<Rightarrow> nat \<Rightarrow> string option" where
  "alt1_at r n =
     (if newline \<notin> set (take n r) \<and> drop n r \<noteq> [] \<and> hd (drop n r) = CHR ''.''
      then match_group1 (tl (drop n r)) else None)"

definition match_alt1 :: "string \<Rightarrow> string option" where
  "match_alt1 r = first_some (alt1_at r) (rev [1..<Suc (length r)])"

definition alt2_at :: "string \<Rightarrow> nat \<Rightarrow> string option" where
  "alt2_at y m =
     (if CHR ''.'' \<notin> set (take m y) \<and> at_end (drop m y) then Some (take m y) else None)"

definition match_alt2 :: "string \<Rightarrow> string option" where
  "match_alt2 r =
     (if r \<noteq> [] \<and> hd r = CHR ''.''
      then first_some (alt2_at (tl r)) (rev [1..<Suc (length (tl r))])
      else None)"

definition match_here :: "string \<Rightarrow> (string option \<times> string option) option" where
  "match_here r =
     (case match_alt1 r of
        Some g \<Rightarrow> Some (Some g, None)
      | None \<Rightarrow> (case match_alt2 r of Some g \<Rightarrow> Some (None, Some g) | None \<Rightarrow> None))"

definition re_search_fmt :: "string \<Rightarrow> (string option \<times> string option) option" where
  "re_search_fmt s = first_some (\<lambda>i. match_here (drop i s)) [0..<Suc (length s)]"

definition truthy :: "string option \<Rightarrow> bool" where
  "truthy x = (case x of None \<Rightarrow> False | Some s \<Rightarrow> s \<noteq> [])"

definition get_tmp_id :: "nat \<Rightarrow> nat \<times> nat" where
  "get_tmp_id i = (i + 1, i + 1)"

definition TaskFile_init ::
  "nat \<Rightarrow> string option \<Rightarrow> string option \<Rightarrow> string option \<Rightarrow> error + (TaskFile \<times> nat)" where
  "TaskFile_init i path name fmt =
     (case (if \<not> truthy fmt \<and> truthy path
            then (case re_search_fmt (the path) of
                    None \<Rightarrow> Inl AttributeError
                  | Some groups \<Rightarrow> Inr (if truthy (fst groups) then fst groups else snd groups))
            else Inr fmt) of
        Inl e \<Rightarrow> Inl e
      | Inr fmt' \<Rightarrow>
          (let name' = (if \<not> truthy name \<and> truthy fmt' then fmt' else name);
               (tmp, i') = get_tmp_id i
           in Inr (\<lparr>tf_id = None, tf_path = path, tf_name = name', tf_fmt = fmt', tf_tmp_id = tmp\<rparr>, i')))"

lemma first_some_None: "first_some f xs = None \<longleftrightarrow> (\<forall>x\<in>set xs. f x = None)"
  by (induction xs) (auto split: option.splits)

lemma first_some_Some: "first_some f xs = Some y \<Longrightarrow> \<exists>x\<in>set xs. f x = Some y"
  by (induction xs) (auto split: option.splits)

lemma first_some_eqI:
  assumes "x0 \<in> set xs" "f x0 = Some y" "\<And>x z. x \<in> set xs \<Longrightarrow> f x = Some z \<Longrightarrow> z = y"
  shows "first_some f xs = Some y"
proof (cases "first_some f xs")
  case None
  with assms(1,2) show ?thesis by (simp add: first_some_None)
next
  case (Some z)
  from first_some_Some[OF this] obtain x where "x \<in> set xs" "f x = Some z" by blast
  with assms(3) Some show ?thesis by simp
qed

lemma in_candidates: "m \<in> set (rev [1..<Suc n]) \<longleftrightarrow> 1 \<le> m \<and> m \<le> n"
  by auto

lemma at_end_no_newline: "newline \<notin> set v \<Longrightarrow> at_end v \<longleftrightarrow> v = []"
  by (auto simp: at_end_def)

lemma group1_at_Some:
  assumes nl: "newline \<notin> set u" and g: "group1_at u m = Some z" and m: "1 \<le> m"
  shows "z = u \<and> (\<exists>x. x \<noteq> [] \<and> CHR ''.'' \<notin> set x \<and> u = x @ ''.gz'')"
proof -
  from g have c: "CHR ''.'' \<notin> set (take m u)" "take 3 (drop m u) = ''.gz''"
    "at_end (drop 3 (drop m u))" "z = take m u @ ''.gz''"
    by (auto simp: group1_at_def split: if_splits)
  have "newline \<notin> set (drop 3 (drop m u))" using nl by (metis in_set_dropD)
  with c(3) have e: "drop 3 (drop m u) = []" by (simp add: at_end_no_newline)
  have "drop m u = take 3 (drop m u) @ drop 3 (drop m u)"
    by (rule append_take_drop_id[symmetric])
  then have d: "drop m u = ''.gz''" by (simp only: c(2) e append_Nil2)
  have u: "u = take m u @ ''.gz''" using d by (metis append_take_drop_id)
  have "drop m u \<noteq> []" using d by simp
  then have "m < length u" by simp
  with m have "take m u \<noteq> []" by auto
  moreover have "z = u" using u c(4) by simp
  ultimately show ?thesis using u c(1) by blast
qed

lemma match_group1_iff:
  assumes nl: "newline \<notin> set u"
  shows "match_group1 u = Some g \<longleftrightarrow> (g = u \<and> (\<exists>x. x \<noteq> [] \<and> CHR ''.'' \<notin> set x \<and> u = x @ ''.gz''))"
proof
  assume "match_group1 u = Some g"
  then have "first_some (group1_at u) (rev [1..<Suc (length u)]) = Some g"
    by (simp only: match_group1_def)
  from first_some_Some[OF this]
  obtain m where "m \<in> set (rev [1..<Suc (length u)])" "group1_at u m = Some g" by blast
  then have "1 \<le> m" "group1_at u m = Some g" by (simp_all only: in_candidates)
  from group1_at_Some[OF nl this(2,1)]
  show "g = u \<and> (\<exists>x. x \<noteq> [] \<and> CHR ''.'' \<notin> set x \<and> u = x @ ''.gz'')" .
next
  assume a: "g = u \<and> (\<exists>x. x \<noteq> [] \<and> CHR ''.'' \<notin> set x \<and> u = x @ ''.gz'')"
  then obtain x where x: "x \<noteq> []" "CHR ''.'' \<notin> set x" "u = x @ ''.gz''" by blast
  have t: "take (length x) u = x" and d: "drop (length x) u = ''.gz''"
    by (simp_all add: x(3))
  have val: "group1_at u (length x) = Some u"
    unfolding group1_at_def t d using x(2) by (simp add: at_end_def x(3))
  have "1 \<le> length x" using x(1) by (cases x) simp_all
  moreover have "length x \<le> length u" by (simp add: x(3))
  ultimately have mem: "length x \<in> set (rev [1..<Suc (length u)])"
    unfolding in_candidates by (rule conjI)
  have uniq: "z = u" if "m \<in> set (rev [1..<Suc (length u)])" "group1_at u m = Some z" for m z
  proof -
    from that(1) have "1 \<le> m" by (simp only: in_candidates)
    from group1_at_Some[OF nl that(2) this] show ?thesis by simp
  qed
  have "first_some (group1_at u) (rev [1..<Suc (length u)]) = Some u"
    using mem val uniq by (rule first_some_eqI)
  then show "match_group1 u = Some g" using a by (simp add: match_group1_def)
qed


lemma takeWhile_dot:
  "CHR ''.'' \<notin> set y \<Longrightarrow> takeWhile (\<lambda>c. c \<noteq> CHR ''.'') (y @ CHR ''.'' # b) = y"
  by (induction y) auto

lemma ext_unique:
  assumes e: "B @ CHR ''.'' # Y = B' @ CHR ''.'' # Y'"
    and d: "CHR ''.'' \<notin> set Y" "CHR ''.'' \<notin> set Y'"
  shows "Y = Y'"
proof -
  from e have "rev (B @ CHR ''.'' # Y) = rev (B' @ CHR ''.'' # Y')" by (rule arg_cong)
  then have "rev Y @ CHR ''.'' # rev B = rev Y' @ CHR ''.'' # rev B'" by simp
  then have eq: "takeWhile (\<lambda>c. c \<noteq> CHR ''.'') (rev Y @ CHR ''.'' # rev B)
           = takeWhile (\<lambda>c. c \<noteq> CHR ''.'') (rev Y' @ CHR ''.'' # rev B')" by (rule arg_cong)
  have "rev Y = takeWhile (\<lambda>c. c \<noteq> CHR ''.'') (rev Y @ CHR ''.'' # rev B)"
    using d(1) by (simp add: takeWhile_dot)
  also note eq
  also have "takeWhile (\<lambda>c. c \<noteq> CHR ''.'') (rev Y' @ CHR ''.'' # rev B') = rev Y'"
    using d(2) by (simp add: takeWhile_dot)
  finally show ?thesis by simp
qed

lemma gz_unique:
  assumes e: "a @ ''.'' @ x @ ''.gz'' = a' @ ''.'' @ x' @ ''.gz''"
    and d: "CHR ''.'' \<notin> set x" "CHR ''.'' \<notin> set x'"
  shows "x = x'"
proof -
  from e have "(a @ CHR ''.'' # x) @ ''.gz'' = (a' @ CHR ''.'' # x') @ ''.gz''" by simp
  then have "a @ CHR ''.'' # x = a' @ CHR ''.'' # x'" by (simp only: append_same_eq)
  then show ?thesis using d by (rule ext_unique)
qed

lemma alt1_at_Some:
  assumes nl: "newline \<notin> set r" and g: "alt1_at r n = Some g" and n: "1 \<le> n"
  shows "\<exists>a x. a \<noteq> [] \<and> x \<noteq> [] \<and> CHR ''.'' \<notin> set x \<and> r = a @ ''.'' @ x @ ''.gz'' \<and> g = x @ ''.gz''"
proof -
  let ?u = "tl (drop n r)"
  from g have c: "drop n r \<noteq> []" "hd (drop n r) = CHR ''.''" "match_group1 ?u = Some g"
    by (simp_all add: alt1_at_def split: if_splits)
  have "set ?u \<subseteq> set r" by (meson list.set_sel(2) set_drop_subset subset_code(1) c(1) in_mono subsetI)
  then have nlu: "newline \<notin> set ?u" using nl by blast
  from c(3) match_group1_iff[OF nlu, of g]
  obtain x where x: "g = ?u" "x \<noteq> []" "CHR ''.'' \<notin> set x" "?u = x @ ''.gz''"
    by blast
  have dr: "drop n r = CHR ''.'' # ?u" using c(1,2) by (metis list.collapse)
  have "r = take n r @ drop n r" by (rule append_take_drop_id[symmetric])
  also have "drop n r = CHR ''.'' # x @ ''.gz''" using dr x(4) by simp
  finally have r: "r = take n r @ ''.'' @ x @ ''.gz''" by simp
  have "n < length r" using c(1) by simp
  with n have "take n r \<noteq> []" by auto
  with r x show ?thesis by metis
qed

lemma match_alt1_iff:
  assumes nl: "newline \<notin> set r"
  shows "match_alt1 r = Some g \<longleftrightarrow>
         (\<exists>a x. a \<noteq> [] \<and> x \<noteq> [] \<and> CHR ''.'' \<notin> set x \<and> r = a @ ''.'' @ x @ ''.gz'' \<and> g = x @ ''.gz'')"
proof
  assume "match_alt1 r = Some g"
  then have "first_some (alt1_at r) (rev [1..<Suc (length r)]) = Some g"
    by (simp only: match_alt1_def)
  from first_some_Some[OF this]
  obtain n where "n \<in> set (rev [1..<Suc (length r)])" "alt1_at r n = Some g" by blast
  then have "1 \<le> n" "alt1_at r n = Some g" by (simp_all only: in_candidates)
  from alt1_at_Some[OF nl this(2,1)]
  show "\<exists>a x. a \<noteq> [] \<and> x \<noteq> [] \<and> CHR ''.'' \<notin> set x \<and> r = a @ ''.'' @ x @ ''.gz'' \<and> g = x @ ''.gz''" .
next
  assume "\<exists>a x. a \<noteq> [] \<and> x \<noteq> [] \<and> CHR ''.'' \<notin> set x \<and> r = a @ ''.'' @ x @ ''.gz'' \<and> g = x @ ''.gz''"
  then obtain a x where ax: "a \<noteq> []" "x \<noteq> []" "CHR ''.'' \<notin> set x" "r = a @ ''.'' @ x @ ''.gz''"
    "g = x @ ''.gz''" by blast
  have t: "take (length a) r = a" and d: "drop (length a) r = CHR ''.'' # x @ ''.gz''"
    by (simp_all add: ax(4))
  have nla: "newline \<notin> set a" using nl ax(4) by simp
  have "newline \<notin> set (x @ ''.gz'')" using nl ax(4) by simp
  from match_group1_iff[OF this, of "x @ ''.gz''"]
  have mg: "match_group1 (x @ ''.gz'') = Some (x @ ''.gz'')"
    using ax(2,3) by blast
  have val: "alt1_at r (length a) = Some g"
    unfolding alt1_at_def t d using nla mg ax(5) by simp
  have "1 \<le> length a" using ax(1) by (cases a) simp_all
  moreover have "length a \<le> length r" by (simp add: ax(4))
  ultimately have mem: "length a \<in> set (rev [1..<Suc (length r)])"
    unfolding in_candidates by (rule conjI)
  have uniq: "z = g" if "n \<in> set (rev [1..<Suc (length r)])" "alt1_at r n = Some z" for n z
  proof -
    from that(1) have "1 \<le> n" by (simp only: in_candidates)
    from alt1_at_Some[OF nl that(2) this] obtain a' x' where
      a': "CHR ''.'' \<notin> set x'" "r = a' @ ''.'' @ x' @ ''.gz''" "z = x' @ ''.gz''" by blast
    from a'(2) ax(4) have "a @ ''.'' @ x @ ''.gz'' = a' @ ''.'' @ x' @ ''.gz''" by simp
    from gz_unique[OF this ax(3) a'(1)] show ?thesis using a'(3) ax(5) by simp
  qed
  have "first_some (alt1_at r) (rev [1..<Suc (length r)]) = Some g"
    using mem val uniq by (rule first_some_eqI)
  then show "match_alt1 r = Some g" by (simp only: match_alt1_def)
qed

lemma alt2_at_Some:
  assumes nl: "newline \<notin> set y0" and g: "alt2_at y0 m = Some y" and m: "1 \<le> m" "m \<le> length y0"
  shows "y = y0 \<and> y0 \<noteq> [] \<and> CHR ''.'' \<notin> set y0"
proof -
  from g have c: "CHR ''.'' \<notin> set (take m y0)" "at_end (drop m y0)" "y = take m y0"
    by (auto simp: alt2_at_def split: if_splits)
  have "newline \<notin> set (drop m y0)" using nl by (metis in_set_dropD)
  with c(2) have "drop m y0 = []" by (simp add: at_end_no_newline)
  then have "take m y0 = y0" by simp
  moreover have "y0 \<noteq> []" using m by auto
  ultimately show ?thesis using c by simp
qed

lemma match_alt2_iff:
  assumes nl: "newline \<notin> set r"
  shows "match_alt2 r = Some y \<longleftrightarrow> (y \<noteq> [] \<and> CHR ''.'' \<notin> set y \<and> r = CHR ''.'' # y)"
proof
  assume a: "match_alt2 r = Some y"
  then have c: "r \<noteq> []" "hd r = CHR ''.''"
    and f: "first_some (alt2_at (tl r)) (rev [1..<Suc (length (tl r))]) = Some y"
    by (auto simp only: match_alt2_def split: if_splits)
  from first_some_Some[OF f]
  obtain m where "m \<in> set (rev [1..<Suc (length (tl r))])" "alt2_at (tl r) m = Some y" by blast
  then have m: "1 \<le> m" "m \<le> length (tl r)" "alt2_at (tl r) m = Some y"
    by (simp_all only: in_candidates)
  have "newline \<notin> set (tl r)" using nl c(1) by (metis list.set_sel(2))
  from alt2_at_Some[OF this m(3) m(1,2)] have "y = tl r" "tl r \<noteq> []" "CHR ''.'' \<notin> set (tl r)"
    by simp_all
  moreover have "r = CHR ''.'' # tl r" using c by (metis list.collapse)
  ultimately show "y \<noteq> [] \<and> CHR ''.'' \<notin> set y \<and> r = CHR ''.'' # y" by simp
next
  assume a: "y \<noteq> [] \<and> CHR ''.'' \<notin> set y \<and> r = CHR ''.'' # y"
  then have nly: "newline \<notin> set y" using nl by auto
  have val: "alt2_at y (length y) = Some y" using a by (simp add: alt2_at_def at_end_def)
  have "1 \<le> length y" using a by (cases y) simp_all
  then have mem: "length y \<in> set (rev [1..<Suc (length y)])"
    unfolding in_candidates by simp
  have uniq: "z = y" if "m \<in> set (rev [1..<Suc (length y)])" "alt2_at y m = Some z" for m z
  proof -
    from that(1) have "1 \<le> m" "m \<le> length y" by (simp_all only: in_candidates)
    from alt2_at_Some[OF nly that(2) this] show ?thesis by simp
  qed
  have "first_some (alt2_at y) (rev [1..<Suc (length y)]) = Some y"
    using mem val uniq by (rule first_some_eqI)
  then show "match_alt2 r = Some y" using a by (simp add: match_alt2_def)
qed


text \<open>
  The two shapes of a path in the words of the specification: \<^verbatim>\<open>path = A.X.gz\<close> with
  \<^verbatim>\<open>A\<close> and \<^verbatim>\<open>X\<close> not empty and no dot in \<^verbatim>\<open>X\<close>; and \<^verbatim>\<open>path = B.Y\<close> with \<^verbatim>\<open>Y\<close>
  not empty and without a dot, the last dot-separated extension.
\<close>

definition gz_form :: "string \<Rightarrow> string \<Rightarrow> bool" where
  "gz_form path X = (\<exists>A. A \<noteq> [] \<and> X \<noteq> [] \<and> CHR ''.'' \<notin> set X \<and> path = A @ ''.'' @ X @ ''.gz'')"

definition ext_form :: "string \<Rightarrow> string \<Rightarrow> bool" where
  "ext_form path Y = (\<exists>B. Y \<noteq> [] \<and> CHR ''.'' \<notin> set Y \<and> path = B @ ''.'' @ Y)"

lemma gz_form_ext_form: "gz_form path X \<Longrightarrow> ext_form path ''gz''"
proof -
  assume "gz_form path X"
  then obtain A where "path = A @ ''.'' @ X @ ''.gz''" unfolding gz_form_def by blast
  then have "path = (A @ ''.'' @ X) @ ''.'' @ ''gz''" by simp
  then show ?thesis unfolding ext_form_def by (intro exI[of _ "A @ ''.'' @ X"]) simp
qed

lemma match_alt1_drop:
  assumes nl: "newline \<notin> set s" and m: "match_alt1 (drop i s) = Some g"
  shows "\<exists>X. gz_form s X \<and> g = X @ ''.gz''"
proof -
  have "newline \<notin> set (drop i s)" using nl by (metis in_set_dropD)
  from m match_alt1_iff[OF this, of g] obtain a x where
    ax: "a \<noteq> []" "x \<noteq> []" "CHR ''.'' \<notin> set x" "drop i s = a @ ''.'' @ x @ ''.gz''" "g = x @ ''.gz''"
    by blast
  have "s = take i s @ drop i s" by (rule append_take_drop_id[symmetric])
  also note ax(4)
  finally have "s = (take i s @ a) @ ''.'' @ x @ ''.gz''" by simp
  moreover have "take i s @ a \<noteq> []" using ax(1) by simp
  ultimately have "gz_form s x" unfolding gz_form_def using ax(2,3) by blast
  with ax(5) show ?thesis by blast
qed

lemma match_alt2_drop:
  assumes nl: "newline \<notin> set s" and m: "match_alt2 (drop i s) = Some y"
  shows "ext_form s y"
proof -
  have "newline \<notin> set (drop i s)" using nl by (metis in_set_dropD)
  from m match_alt2_iff[OF this, of y]
  have y: "y \<noteq> []" "CHR ''.'' \<notin> set y" "drop i s = CHR ''.'' # y" by simp_all
  have "s = take i s @ drop i s" by (rule append_take_drop_id[symmetric])
  also note y(3)
  finally have "s = take i s @ ''.'' @ y" by simp
  then show ?thesis unfolding ext_form_def using y(1,2) by blast
qed

lemma ext_form_unique: "ext_form s Y \<Longrightarrow> ext_form s Y' \<Longrightarrow> Y = Y'"
proof -
  assume "ext_form s Y" "ext_form s Y'"
  then obtain B B' where "CHR ''.'' \<notin> set Y" "s = B @ ''.'' @ Y" "CHR ''.'' \<notin> set Y'" "s = B' @ ''.'' @ Y'"
    unfolding ext_form_def by blast
  then have "B @ CHR ''.'' # Y = B' @ CHR ''.'' # Y'" "CHR ''.'' \<notin> set Y" "CHR ''.'' \<notin> set Y'"
    by simp_all
  then show ?thesis by (rule ext_unique)
qed

lemma re_search_gz:
  assumes nl: "newline \<notin> set s" and gz: "gz_form s X"
  shows "re_search_fmt s = Some (Some (X @ ''.gz''), None)"
proof -
  from gz have "match_alt1 s = Some (X @ ''.gz'')"
    unfolding gz_form_def using match_alt1_iff[OF nl, of "X @ ''.gz''"] by blast
  then have "match_here (drop 0 s) = Some (Some (X @ ''.gz''), None)"
    by (simp add: match_here_def)
  moreover have "[0..<Suc (length s)] = 0 # [Suc 0..<Suc (length s)]"
    by (rule upt_conv_Cons) simp
  ultimately show ?thesis by (simp only: re_search_fmt_def first_some.simps option.case)
qed

lemma re_search_ext:
  assumes nl: "newline \<notin> set s" and ngz: "\<And>X. \<not> gz_form s X" and ext: "ext_form s Y"
  shows "re_search_fmt s = Some (None, Some Y)"
proof -
  have no1: "match_alt1 (drop i s) = None" for i
  proof (cases "match_alt1 (drop i s)")
    case None
    then show ?thesis .
  next
    case (Some g)
    from match_alt1_drop[OF nl this] ngz show ?thesis by blast
  qed
  from ext obtain B where B: "Y \<noteq> []" "CHR ''.'' \<notin> set Y" "s = B @ ''.'' @ Y"
    unfolding ext_form_def by blast
  have d: "drop (length B) s = CHR ''.'' # Y" by (simp add: B(3))
  have "newline \<notin> set (CHR ''.'' # Y)" using nl B(3) by simp
  from match_alt2_iff[OF this, of Y] B have "match_alt2 (CHR ''.'' # Y) = Some Y" by simp
  then have val: "match_here (drop (length B) s) = Some (None, Some Y)"
    using no1[of "length B"] by (simp add: match_here_def d)
  have mem: "length B \<in> set [0..<Suc (length s)]" by (simp add: B(3))
  have uniq: "z = (None, Some Y)" if "match_here (drop i s) = Some z" for i z
  proof -
    from that no1[of i] obtain y where y: "match_alt2 (drop i s) = Some y" "z = (None, Some y)"
      by (auto simp: match_here_def split: option.splits)
    from match_alt2_drop[OF nl y(1)] ext have "y = Y" by (rule ext_form_unique)
    with y(2) show ?thesis by simp
  qed
  show ?thesis unfolding re_search_fmt_def
    using mem val uniq by (rule first_some_eqI)
qed

lemma re_search_none:
  assumes nl: "newline \<notin> set s" and noext: "\<And>Y. \<not> ext_form s Y"
  shows "re_search_fmt s = None"
proof -
  have "match_here (drop i s) = None" for i
  proof -
    have "match_alt1 (drop i s) = None"
    proof (cases "match_alt1 (drop i s)")
      case None
      then show ?thesis .
    next
      case (Some g)
      from match_alt1_drop[OF nl this] gz_form_ext_form noext show ?thesis by blast
    qed
    moreover have "match_alt2 (drop i s) = None"
    proof (cases "match_alt2 (drop i s)")
      case None
      then show ?thesis .
    next
      case (Some y)
      from match_alt2_drop[OF nl this] noext show ?thesis by blast
    qed
    ultimately show ?thesis by (simp add: match_here_def)
  qed
  then show ?thesis by (simp add: re_search_fmt_def first_some_None)
qed

lemma gz_form_last: "gz_form s X \<Longrightarrow> last s = CHR ''z''"
  unfolding gz_form_def by auto

lemma ext_form_dot: "ext_form s Y \<Longrightarrow> CHR ''.'' \<in> set s"
  unfolding ext_form_def by auto

text \<open>
  C8, as the specification states it, for every non-empty path: a path that has the shape
  \<^verbatim>\<open>A.X.gz\<close> gets \<^verbatim>\<open>fmt = X.gz\<close>. The pattern's \<^verbatim>\<open>.+\<close> does not match a newline, so for
  the path made of a newline followed by \<^verbatim>\<open>.b.gz\<close> the first alternative fails and the
  second gives \<^verbatim>\<open>fmt = gz\<close>, not \<^verbatim>\<open>b.gz\<close>. And a path without a dot has no extension
  to set: the constructor raises \<^verbatim>\<open>AttributeError\<close>.
\<close>

theorem TaskFile_init_fmt_counterexample:
  "gz_form (newline # ''.b.gz'') ''b''
   \<and> TaskFile_init 0 (Some (newline # ''.b.gz'')) None None
       = Inr (\<lparr>tf_id = None, tf_path = Some (newline # ''.b.gz''), tf_name = Some ''gz'',
               tf_fmt = Some ''gz'', tf_tmp_id = 1\<rparr>, 1)
   \<and> ''gz'' \<noteq> ''b.gz''
   \<and> TaskFile_init 0 (Some ''README'') None None = Inl AttributeError"
proof -
  have "newline # ''.b.gz'' = [newline] @ ''.'' @ ''b'' @ ''.gz''" by simp
  then have "gz_form (newline # ''.b.gz'') ''b''"
    unfolding gz_form_def by (intro exI[of _ "[newline]"]) simp
  moreover have "TaskFile_init 0 (Some (newline # ''.b.gz'')) None None
       = Inr (\<lparr>tf_id = None, tf_path = Some (newline # ''.b.gz''), tf_name = Some ''gz'',
               tf_fmt = Some ''gz'', tf_tmp_id = 1\<rparr>, 1)"
    by code_simp
  moreover have "TaskFile_init 0 (Some ''README'') None None = Inl AttributeError"
    by code_simp
  ultimately show ?thesis by simp
qed

text \<open>
  C8, amended: for every TaskFile constructed with a non-empty path that holds no newline
  character and with no explicit fmt: if the path is \<^verbatim>\<open>A.X.gz\<close> (\<^verbatim>\<open>A\<close>, \<^verbatim>\<open>X\<close> not
  empty, no dot in \<^verbatim>\<open>X\<close>) then fmt is \<^verbatim>\<open>X.gz\<close>; otherwise, if the path is \<^verbatim>\<open>B.Y\<close>
  (\<^verbatim>\<open>Y\<close> not empty, no dot in \<^verbatim>\<open>Y\<close>) then fmt is \<^verbatim>\<open>Y\<close>, the last dot-separated
  extension; otherwise (no dot, or a dot at the very end) the constructor raises
  \<^verbatim>\<open>AttributeError\<close>. Where fmt is set and no name is given, name is fmt.
\<close>

theorem TaskFile_init_fmt:
  assumes ne: "path \<noteq> []" and nl: "newline \<notin> set path" and nf: "\<not> truthy fmt"
  shows "(\<forall>X. gz_form path X \<longrightarrow>
            TaskFile_init i (Some path) name fmt
              = Inr (\<lparr>tf_id = None, tf_path = Some path,
                      tf_name = (if truthy name then name else Some (X @ ''.gz'')),
                      tf_fmt = Some (X @ ''.gz''), tf_tmp_id = i + 1\<rparr>, i + 1))
       \<and> ((\<forall>X. \<not> gz_form path X) \<longrightarrow>
            (\<forall>Y. ext_form path Y \<longrightarrow>
               TaskFile_init i (Some path) name fmt
                 = Inr (\<lparr>tf_id = None, tf_path = Some path,
                         tf_name = (if truthy name then name else Some Y),
                         tf_fmt = Some Y, tf_tmp_id = i + 1\<rparr>, i + 1)))
       \<and> ((\<forall>Y. \<not> ext_form path Y) \<longrightarrow> TaskFile_init i (Some path) name fmt = Inl AttributeError)"
proof (intro conjI allI impI)
  have tp: "truthy (Some path)" using ne by (simp add: truthy_def)
  {
    fix X assume gz: "gz_form path X"
    from re_search_gz[OF nl gz] tp nf
    show "TaskFile_init i (Some path) name fmt
              = Inr (\<lparr>tf_id = None, tf_path = Some path,
                      tf_name = (if truthy name then name else Some (X @ ''.gz'')),
                      tf_fmt = Some (X @ ''.gz''), tf_tmp_id = i + 1\<rparr>, i + 1)"
      by (simp add: TaskFile_init_def get_tmp_id_def truthy_def)
  next
    fix Y assume ngz: "\<forall>X. \<not> gz_form path X" and ext: "ext_form path Y"
    from ext have y: "Y \<noteq> []" unfolding ext_form_def by blast
    from re_search_ext[OF nl _ ext] ngz have "re_search_fmt path = Some (None, Some Y)" by blast
    with tp nf y
    show "TaskFile_init i (Some path) name fmt
                 = Inr (\<lparr>tf_id = None, tf_path = Some path,
                         tf_name = (if truthy name then name else Some Y),
                         tf_fmt = Some Y, tf_tmp_id = i + 1\<rparr>, i + 1)"
      by (simp add: TaskFile_init_def get_tmp_id_def truthy_def)
  next
    assume "\<forall>Y. \<not> ext_form path Y"
    with re_search_none[OF nl] have "re_search_fmt path = None" by blast
    with tp nf show "TaskFile_init i (Some path) name fmt = Inl AttributeError"
      by (simp add: TaskFile_init_def)
  }
qed


theorem TaskFile_init_fmt_witness:
  "''file.blah.fastq.gz'' \<noteq> [] \<and> newline \<notin> set ''file.blah.fastq.gz'' \<and> \<not> truthy None
   \<and> gz_form ''file.blah.fastq.gz'' ''fastq''
   \<and> TaskFile_init 0 (Some ''file.blah.fastq.gz'') None None
       = Inr (\<lparr>tf_id = None, tf_path = Some ''file.blah.fastq.gz'', tf_name = Some ''fastq.gz'',
               tf_fmt = Some ''fastq.gz'', tf_tmp_id = 1\<rparr>, 1)
   \<and> ext_form ''file.blah.fastq'' ''fastq''
   \<and> TaskFile_init 0 (Some ''file.blah.fastq'') (Some ''reads'') None
       = Inr (\<lparr>tf_id = None, tf_path = Some ''file.blah.fastq'', tf_name = Some ''reads'',
               tf_fmt = Some ''fastq'', tf_tmp_id = 1\<rparr>, 1)
   \<and> TaskFile_init 0 (Some ''README'') None None = Inl AttributeError"
proof -
  have h1: "''file.blah.fastq.gz'' \<noteq> []" "newline \<notin> set ''file.blah.fastq.gz''" "\<not> truthy None"
    by (simp_all add: newline_def truthy_def)
  have "''file.blah.fastq.gz'' = ''file.blah'' @ ''.'' @ ''fastq'' @ ''.gz''" by simp
  then have gz: "gz_form ''file.blah.fastq.gz'' ''fastq''"
    unfolding gz_form_def by (intro exI[of _ "''file.blah''"]) simp
  have r1: "TaskFile_init 0 (Some ''file.blah.fastq.gz'') None None
       = Inr (\<lparr>tf_id = None, tf_path = Some ''file.blah.fastq.gz'', tf_name = Some ''fastq.gz'',
               tf_fmt = Some ''fastq.gz'', tf_tmp_id = 1\<rparr>, 1)"
    using TaskFile_init_fmt[OF h1, of 0 None] gz by (simp add: truthy_def)
  have h2: "''file.blah.fastq'' \<noteq> []" "newline \<notin> set ''file.blah.fastq''"
    by (simp_all add: newline_def)
  have "''file.blah.fastq'' = ''file.blah'' @ ''.'' @ ''fastq''" by simp
  then have ext: "ext_form ''file.blah.fastq'' ''fastq''"
    unfolding ext_form_def by (intro exI[of _ "''file.blah''"]) simp
  have ngz: "\<forall>X. \<not> gz_form ''file.blah.fastq'' X"
    using gz_form_last[of "''file.blah.fastq''"] by auto
  have r2: "TaskFile_init 0 (Some ''file.blah.fastq'') (Some ''reads'') None
       = Inr (\<lparr>tf_id = None, tf_path = Some ''file.blah.fastq'', tf_name = Some ''reads'',
               tf_fmt = Some ''fastq'', tf_tmp_id = 1\<rparr>, 1)"
    using TaskFile_init_fmt[OF h2 h1(3), of 0 "Some ''reads''"] ext ngz by (simp add: truthy_def)
  have h3: "''README'' \<noteq> []" "newline \<notin> set ''README''" by (simp_all add: newline_def)
  have "\<forall>Y. \<not> ext_form ''README'' Y" using ext_form_dot[of "''README''"] by auto
  then have r3: "TaskFile_init 0 (Some ''README'') None None = Inl AttributeError"
    using TaskFile_init_fmt[OF h3 h1(3), of 0 None] by blast
  show ?thesis using h1 gz r1 ext r2 r3 by simp
qed

section \<open>\<^verbatim>\<open>Workflow.__reload\<close> and \<^verbatim>\<open>bulk_delete_tasks\<close>\<close>

text \<open>
  \<^verbatim>\<open>
  def bulk_delete_tasks(self,tasks):
      task_output_dirs = map(lambda t: t.output_dir,tasks)
      JobAttempt.objects.filter(task__in = tasks).delete()
      TaskTag.objects.filter(task__in=tasks).delete()
      TaskEdge.objects.filter(Q(parent=self)|Q(child=self)).delete()
      TaskFile.objects.filter(task_output_set__in=tasks).delete()
      tasks.delete()
      for d in task_output_dirs:
          os.system('rm -rf {0}'.format(d))
  \<close>
  \<^verbatim>\<open>self\<close> is the Workflow. The Django of this code (it uses
  \<^verbatim>\<open>transaction.commit_on_success\<close>) takes the primary key of whatever model instance is
  given to a foreign-key lookup, so \<^verbatim>\<open>Q(parent=self)|Q(child=self)\<close> selects the edges
  whose parent or child Task has the id of the workflow. \<^verbatim>\<open>QuerySet.delete()\<close> emulates
  \<^verbatim>\<open>ON DELETE CASCADE\<close>: deleting Task rows deletes the rows that point to them
  (JobAttempts, TaskTags, TaskEdges, the rows of the two many-to-many relations), and
  deleting TaskFile rows deletes their rows of the many-to-many relations
  (\<^verbatim>\<open>delete_tasks\<close>, \<^verbatim>\<open>delete_task_files\<close>). \<^verbatim>\<open>tasks\<close> is a lazy queryset, evaluated by
  each statement on the rows of that moment. \<^verbatim>\<open>rm -rf d\<close> removes \<^verbatim>\<open>d\<close> and all below.
\<close>

definition rm_rf :: "string \<Rightarrow> string list \<Rightarrow> string list" where
  "rm_rf d paths = filter (\<lambda>p. p \<noteq> d \<and> \<not> prefix (d @ ''/'') p) paths"

definition delete_tasks :: "nat list \<Rightarrow> State \<Rightarrow> State" where
  "delete_tasks ids st =
     st\<lparr>tasks := filter (\<lambda>t. t_id t \<notin> set ids) (tasks st),
        job_attempts := filter (\<lambda>ja. ja_task ja \<notin> set ids) (job_attempts st),
        task_tags := filter (\<lambda>tt. tt_task tt \<notin> set ids) (task_tags st),
        task_edges := filter (\<lambda>e. te_parent e \<notin> set ids \<and> te_child e \<notin> set ids) (task_edges st),
        task_output_files := filter (\<lambda>r. fst r \<notin> set ids) (task_output_files st),
        task_input_files := filter (\<lambda>r. fst r \<notin> set ids) (task_input_files st)\<rparr>"

definition delete_task_files :: "nat list \<Rightarrow> State \<Rightarrow> State" where
  "delete_task_files fids st =
     st\<lparr>task_files := filter (\<lambda>f. case tf_id f of None \<Rightarrow> True | Some i \<Rightarrow> i \<notin> set fids)
                        (task_files st),
        task_output_files := filter (\<lambda>r. snd r \<notin> set fids) (task_output_files st),
        task_input_files := filter (\<lambda>r. snd r \<notin> set fids) (task_input_files st)\<rparr>"

fun output_dirs :: "Task list \<Rightarrow> State \<Rightarrow> error + string list" where
  "output_dirs [] st = Inr []"
| "output_dirs (t # ts) st =
     (case Task_output_dir t st of
        Raise e _ \<Rightarrow> Inl e
      | Ok d _ \<Rightarrow> (case output_dirs ts st of Inl e \<Rightarrow> Inl e | Inr ds \<Rightarrow> Inr (d # ds)))"

definition bulk_delete_tasks :: "Workflow \<Rightarrow> (State \<Rightarrow> Task list) \<Rightarrow> State \<Rightarrow> unit result" where
  "bulk_delete_tasks self tasks_q st =
     (case output_dirs (tasks_q st) st of
        Inl e \<Rightarrow> Raise e st
      | Inr task_output_dirs \<Rightarrow>
          (let st1 = st\<lparr>job_attempts :=
                       filter (\<lambda>ja. ja_task ja \<notin> t_id ` set (tasks_q st)) (job_attempts st)\<rparr>;
               st2 = st1\<lparr>task_tags :=
                       filter (\<lambda>tt. tt_task tt \<notin> t_id ` set (tasks_q st1)) (task_tags st1)\<rparr>;
               st3 = st2\<lparr>task_edges :=
                       filter (\<lambda>e. \<not> (te_parent e = w_id self \<or> te_child e = w_id self))
                         (task_edges st2)\<rparr>;
               st4 = delete_task_files
                       (map snd (filter (\<lambda>r. fst r \<in> t_id ` set (tasks_q st3)) (task_output_files st3)))
                       st3;
               st5 = delete_tasks (map t_id (tasks_q st4)) st4
           in Ok () (st5\<lparr>fs := fold rm_rf task_output_dirs (fs st5)\<rparr>)))"

definition Stage_delete :: "Stage \<Rightarrow> State \<Rightarrow> unit result" where
  "Stage_delete self st =
     (case find (\<lambda>w. w_id w = s_workflow self) (workflows st) of
        None \<Rightarrow> Raise DoesNotExist st
      | Some workflow \<Rightarrow>
          (let d = Stage_output_dir workflow self;
               st1 = (if d \<in> set (fs st) then st\<lparr>fs := rm_rf d (fs st)\<rparr> else st)
           in case bulk_delete_tasks workflow (Stage_tasks self) st1 of
                Raise e st2 \<Rightarrow> Raise e st2
              | Ok _ st2 \<Rightarrow>
                  Ok () ((delete_tasks (map t_id (Stage_tasks self st2)) st2)
                           \<lparr>stages := filter (\<lambda>s. s_id s \<noteq> s_id self) (stages st2)\<rparr>)))"

fun delete_stages :: "Stage list \<Rightarrow> State \<Rightarrow> unit result" where
  "delete_stages [] st = Ok () st"
| "delete_stages (s # ss) st =
     (case Stage_delete s st of Raise e st' \<Rightarrow> Raise e st' | Ok _ st' \<Rightarrow> delete_stages ss st')"

text \<open>
  \<^verbatim>\<open>Workflow.__resume\<close> and \<^verbatim>\<open>Workflow.__reload\<close> (the \<^verbatim>\<open>prompt_confirm\<close> argument is
  unused in the source). Loading the workflow by its name runs \<^verbatim>\<open>Workflow.__init__\<close>:
  \<^verbatim>\<open>validate_name\<close>, a helper that is not among the sources, is the parameter
  \<^verbatim>\<open>validate_name\<close>, and \<^verbatim>\<open>check_and_create_output_dir\<close> creates the output directory
  when it is missing.
  \<^verbatim>\<open>
  wf = Workflow.__resume(name,dry_run,default_queue,delete_intermediates)
  if delete_unsuccessful_stages:
      for s in wf.stages.filter(successful=False): s.delete()
  else:
      for s in Stage.objects.filter(workflow=wf).exclude(task__successful=True): s.delete()
  utasks = wf.tasks.filter(successful=False)
  num_utasks = len(utasks)
  if num_utasks > 0:
      wf.bulk_delete_tasks(utasks)
      Stage.objects.filter(workflow=wf,successful=False,task__successful=True).update(
          successful=False,status='in_progress',finished_on=None)
  return wf
  \<close>
\<close>

definition resume ::
  "(string \<Rightarrow> bool) \<Rightarrow> string \<Rightarrow> bool \<Rightarrow> string option \<Rightarrow> bool \<Rightarrow> State \<Rightarrow> Workflow result" where
  "resume validate_name name dry_run default_queue delete_intermediates st =
     (case filter (\<lambda>w. w_name w = name) (workflows st) of
        [] \<Rightarrow> Raise ValidationError st
      | [row] \<Rightarrow>
          if \<not> validate_name (w_name row) then Raise ValidationError st
          else
            (let st0 = check_and_create_output_dir (w_output_dir row) st;
                 wf1 = row\<lparr>w_dry_run := dry_run, w_finished_on := None,
                           w_default_queue := default_queue,
                           w_delete_intermediates := delete_intermediates\<rparr>;
                 st1 = save_workflow wf1 st0
             in Ok wf1 (st1\<lparr>stages := map (\<lambda>s. if s_workflow s = w_id wf1
                                                then s\<lparr>s_order_in_workflow := None\<rparr> else s)
                                         (stages st1)\<rparr>))
      | _ \<Rightarrow> Raise MultipleObjectsReturned st)"

definition reload ::
  "(string \<Rightarrow> bool) \<Rightarrow> string \<Rightarrow> bool \<Rightarrow> string option \<Rightarrow> bool \<Rightarrow> bool \<Rightarrow> State \<Rightarrow> Workflow result" where
  "reload validate_name name dry_run default_queue delete_intermediates delete_unsuccessful_stages st =
     (case resume validate_name name dry_run default_queue delete_intermediates st of
        Raise e st' \<Rightarrow> Raise e st'
      | Ok wf1 st1 \<Rightarrow>
          (case delete_stages
                  (if delete_unsuccessful_stages
                   then filter (\<lambda>s. s_successful s = False) (Workflow_stages wf1 st1)
                   else filter (\<lambda>s. \<not> (\<exists>t\<in>set (tasks st1). t_stage t = s_id s \<and> t_successful t = True))
                          (Workflow_stages wf1 st1))
                  st1 of
             Raise e st' \<Rightarrow> Raise e st'
           | Ok _ st2 \<Rightarrow>
               (let utasks = filter (\<lambda>t. t_successful t = False) (Workflow_tasks wf1 st2)
                in if length utasks > 0
                   then (case bulk_delete_tasks wf1
                                (\<lambda>st. filter (\<lambda>t. t_successful t = False) (Workflow_tasks wf1 st)) st2 of
                           Raise e st' \<Rightarrow> Raise e st'
                         | Ok _ st3 \<Rightarrow>
                             Ok wf1 (st3\<lparr>stages :=
                               map (\<lambda>s. if s_workflow s = w_id wf1 \<and> s_successful s = False
                                           \<and> (\<exists>t\<in>set (tasks st3). t_stage t = s_id s \<and> t_successful t = True)
                                         then s\<lparr>s_successful := False, s_status := In_progress,
                                                s_finished_on := None\<rparr>
                                         else s) (stages st3)\<rparr>))
                   else Ok wf1 st2)))"

definition example_reload_state :: "nat \<Rightarrow> State" where
  "example_reload_state wid =
     empty_state\<lparr>workflows := [example_workflow\<lparr>w_id := wid\<rparr>],
       stages := [(mk_stage 1 Failed False (Some 9))\<lparr>s_workflow := wid\<rparr>],
       tasks := [mk_task 1 1 Successful True False (Some 5),
                 mk_task 2 1 Successful True False (Some 7),
                 mk_task 3 1 Failed False False (Some 9)],
       task_edges := [mk_edge 1 1 2, mk_edge 2 2 3],
       job_attempts := [mk_jobAttempt 1 1 Completed True (Some 5),
                        mk_jobAttempt 2 2 Completed True (Some 7),
                        mk_jobAttempt 3 3 Completed False (Some 9)]\<rparr>"

text \<open>
  C5 on the code. The workflow has id 1 and one stage with the tasks 1 and 2 (successful)
  and 3 (failed), and the edges 1 -> 2 and 2 -> 3. Reload deletes task 3 and, by the
  cascade, its JobAttempt and the edge 2 -> 3; the filter \<^verbatim>\<open>parent=self\<close> also deletes the
  edge 1 -> 2, whose parent has the id of the workflow, although both its tasks are
  retained. With the workflow id 7, that no task has, the edge 1 -> 2 stays.
\<close>

theorem reload_deletes_edge_between_retained_tasks:
  "(case reload accept_name ''wf'' False None False False (example_reload_state 1) of
      Ok w st \<Rightarrow> Some (map t_id (tasks st), map (\<lambda>e. (te_parent e, te_child e)) (task_edges st))
    | Raise e st \<Rightarrow> None) = Some ([1, 2], [])
   \<and> (case reload accept_name ''wf'' False None False False (example_reload_state 7) of
      Ok w st \<Rightarrow> Some (map t_id (tasks st), map (\<lambda>e. (te_parent e, te_child e)) (task_edges st))
    | Raise e st \<Rightarrow> None) = Some ([1, 2], [(1, 2)])"
  by code_simp

section \<open>\<^verbatim>\<open>Workflow.run\<close>: the controller loop\<close>

subsection \<open>Status changes\<close>

text \<open>
  \<^verbatim>\<open>
  def set_status(self,new_status,save=True):
      self.status = new_status
      if new_status == 'successful':
          self.successful = True
      if save: self.save()
  \<close>
  The same body in \<^verbatim>\<open>Stage\<close> and in \<^verbatim>\<open>Task\<close> (the log lines left out); every caller here
  takes the default \<^verbatim>\<open>save=True\<close>. The result is the changed object and the state.
\<close>

definition Stage_set_status :: "status \<Rightarrow> Stage \<Rightarrow> State \<Rightarrow> Stage \<times> State" where
  "Stage_set_status new_status self st =
     (let self' = self\<lparr>s_status := new_status,
                       s_successful := (if new_status = Successful then True else s_successful self)\<rparr>
      in (self', save_stage self' st))"

definition Task_set_status :: "status \<Rightarrow> Task \<Rightarrow> State \<Rightarrow> Task \<times> State" where
  "Task_set_status new_status self st =
     (let self' = self\<lparr>t_status := new_status,
                       t_successful := (if new_status = Successful then True else t_successful self)\<rparr>
      in (self', save_task self' st))"

text \<open>
  \<^verbatim>\<open>
  def _are_all_tasks_done(self):
      return self.tasks.filter(Q(status = 'successful') | Q(status='failed')).count() == self.tasks.count()

  def _has_finished(self):
      num_tasks = Task.objects.filter(stage=self).count()
      num_tasks_successful = self.num_tasks_successful
      num_tasks_failed = Task.objects.filter(stage=self,status='failed').count()
      if num_tasks_successful == num_tasks:
          self.set_status('successful')
      elif num_tasks_failed + num_tasks_successful == num_tasks:
          self.set_status('failed')
      else:
          raise Exception('Stage._has_finished() called, but not all tasks are completed.')
      self.finished_on = timezone.now()
      self.save()
  \<close>
  \<^verbatim>\<open>num_tasks_successful\<close> is \<^verbatim>\<open>Task.objects.filter(stage=self,successful=True).count()\<close>.
\<close>

definition are_all_tasks_done :: "Stage \<Rightarrow> State \<Rightarrow> bool" where
  "are_all_tasks_done self st =
     (length (filter (\<lambda>t. t_status t = Successful \<or> t_status t = Failed) (Stage_tasks self st))
      = length (Stage_tasks self st))"

definition Stage_has_finished :: "datetime \<Rightarrow> Stage \<Rightarrow> State \<Rightarrow> unit result" where
  "Stage_has_finished now self st =
     (let num_tasks = length (Stage_tasks self st);
          num_tasks_successful = length (filter (\<lambda>t. t_successful t = True) (Stage_tasks self st));
          num_tasks_failed = length (filter (\<lambda>t. t_status t = Failed) (Stage_tasks self st))
      in if num_tasks_successful = num_tasks
         then (let (self1, st1) = Stage_set_status Successful self st
               in Ok () (save_stage (self1\<lparr>s_finished_on := Some now\<rparr>) st1))
         else if num_tasks_failed + num_tasks_successful = num_tasks
         then (let (self1, st1) = Stage_set_status Failed self st
               in Ok () (save_stage (self1\<lparr>s_finished_on := Some now\<rparr>) st1))
         else Raise PyException st)"

text \<open>
  \<^verbatim>\<open>
  def _has_finished(self,jobAttempt):
      if jobAttempt == 'NOOP' or jobAttempt.task.succeed_on_failure or self.jobattempt_set.filter(successful=True).count():
          self.set_status('successful')
      else:
          self.set_status('failed')
      self.finished_on = timezone.now()
      signals.task_status_change.send(sender=self, status=self.status)
      if self.stage._are_all_tasks_done(): self.stage._has_finished()
  \<close>
  The argument is \<^verbatim>\<open>None\<close> for the string \<^verbatim>\<open>'NOOP'\<close> and the JobAttempt otherwise; in
  \<^verbatim>\<open>run\<close> the attempt's \<^verbatim>\<open>task\<close> is the task the method is called on. \<^verbatim>\<open>finished_on\<close> is
  assigned on the object after the save of \<^verbatim>\<open>set_status\<close>, so the row keeps its old value.
  \<^verbatim>\<open>self.stage\<close> is read from the Stage table by the task's foreign key (Django keeps the
  object it read first on the task instance; the two can differ only in columns of the Stage
  row). The signal has no receiver in the sources.
\<close>

definition Task_has_finished :: "datetime \<Rightarrow> JobAttempt option \<Rightarrow> Task \<Rightarrow> State \<Rightarrow> Task result" where
  "Task_has_finished now jobAttempt self st =
     (let (self1, st1) =
            (if jobAttempt = None \<or> t_succeed_on_failure self
                \<or> length (filter (\<lambda>ja. ja_task ja = t_id self \<and> ja_successful ja = True)
                             (job_attempts st)) > 0
             then Task_set_status Successful self st
             else Task_set_status Failed self st);
          self2 = self1\<lparr>t_finished_on := Some now\<rparr>
      in case find (\<lambda>s. s_id s = t_stage self2) (stages st1) of
           None \<Rightarrow> Raise DoesNotExist st1
         | Some stage \<Rightarrow>
             if are_all_tasks_done stage st1
             then (case Stage_has_finished now stage st1 of
                     Raise e s \<Rightarrow> Raise e s
                   | Ok _ st2 \<Rightarrow> Ok self2 st2)
             else Ok self2 st1)"

subsection \<open>Submitting a task\<close>

text \<open>
  \<^verbatim>\<open>
  def _run_task(self,task):
      if (task.NOOP):
          return 'NOOP'
      if task.stage.status in ['no_attempt','failed']:
          if task.stage.status == 'no_attempt':
              task.stage.started_on = timezone.now()
          task.stage.set_status('in_progress')
          task.stage.save()
      task.set_status('in_progress')
      task.exec_command = task.pcmd
      for f in task.output_files:
          if not f.path:
              f.path = os.path.join(task.job_output_dir,'{0}.{1}'.format('out' if f.name == f.fmt else f.name,f.fmt))
              f.save()
          if f.fmt == 'dir':
              check_and_create_output_dir(f.path)
      for m in re.findall('(#F\[(.+?):(.+?):(.+?)\])',task.exec_command):
          try:
              taskfile = TaskFile.objects.get(pk=m[1])
              task.exec_command = task.exec_command.replace(m[0],taskfile.path)
          except ValueError as e:
              raise ValueError(...)
          except TypeError as e:
              raise TypeError(...)
      jobAttempt = self.jobManager.add_jobAttempt(task=task, command=task.exec_command, jobName="")
      task.jobattempt_set.add(jobAttempt)
      if self.dry_run:
          self.log.info('Dry Run: skipping submission of job {0}.'.format(jobAttempt))
      else:
          self.jobManager.submit_job(jobAttempt)
      task.save()
      return jobAttempt
  \<close>
  The result is the task object as the call leaves it and the attempt (\<^verbatim>\<open>None\<close> for the
  string \<^verbatim>\<open>'NOOP'\<close>). \<^verbatim>\<open>format\<close> prints \<^verbatim>\<open>None\<close> as the text \<^verbatim>\<open>None\<close>. The parameter
  \<^verbatim>\<open>taskfile_refs\<close> stands for \<^verbatim>\<open>re.findall\<close> on this pattern: for a command it gives the
  matches in order, each with its whole text \<^verbatim>\<open>m[0]\<close> and the primary key read from
  \<^verbatim>\<open>m[1]\<close>, \<^verbatim>\<open>None\<close> when \<^verbatim>\<open>m[1]\<close> is not a number (the lookup then raises
  \<^verbatim>\<open>ValueError\<close>); \<^verbatim>\<open>str.replace\<close> with a path that is \<^verbatim>\<open>None\<close> raises \<^verbatim>\<open>TypeError\<close>.
  \<^verbatim>\<open>task.jobattempt_set.add\<close> sets the foreign key that \<^verbatim>\<open>add_jobAttempt\<close> has set already.
\<close>

definition str_or_None :: "string option \<Rightarrow> string" where
  "str_or_None x = (case x of None \<Rightarrow> ''None'' | Some s \<Rightarrow> s)"

definition Task_output_files :: "Task \<Rightarrow> State \<Rightarrow> TaskFile list" where
  "Task_output_files task st =
     filter (\<lambda>f. case tf_id f of None \<Rightarrow> False
                 | Some i \<Rightarrow> (t_id task, i) \<in> set (task_output_files st)) (task_files st)"

definition save_task_file :: "TaskFile \<Rightarrow> State \<Rightarrow> State" where
  "save_task_file f st =
     st\<lparr>task_files := map (\<lambda>x. if tf_id x = tf_id f then f else x) (task_files st)\<rparr>"

fun set_output_paths :: "Task \<Rightarrow> TaskFile list \<Rightarrow> State \<Rightarrow> unit result" where
  "set_output_paths task [] st = Ok () st"
| "set_output_paths task (f # rest) st =
     (case (if \<not> truthy (tf_path f)
            then (case Task_job_output_dir task st of
                    Raise e s \<Rightarrow> Raise e s
                  | Ok job_output_dir _ \<Rightarrow>
                      (let f1 = f\<lparr>tf_path := Some (path_join job_output_dir
                                   ((if tf_name f = tf_fmt f then ''out'' else str_or_None (tf_name f))
                                    @ ''.'' @ str_or_None (tf_fmt f)))\<rparr>
                       in Ok f1 (save_task_file f1 st)))
            else Ok f st) of
        Raise e s \<Rightarrow> Raise e s
      | Ok f1 st1 \<Rightarrow>
          set_output_paths task rest
            (if tf_fmt f1 = Some ''dir''
             then check_and_create_output_dir (str_or_None (tf_path f1)) st1 else st1))"

fun replace_from :: "string \<Rightarrow> string \<Rightarrow> nat \<Rightarrow> string \<Rightarrow> string" where
  "replace_from old new k [] = []"
| "replace_from old new k (c # cs) =
     (if k > 0 then replace_from old new (k - 1) cs
      else if prefix old (c # cs) then new @ replace_from old new (length old - 1) cs
      else c # replace_from old new 0 cs)"

definition replace_str :: "string \<Rightarrow> string \<Rightarrow> string \<Rightarrow> string" where
  "replace_str old new s =
     (if old = [] then new @ concat (map (\<lambda>c. c # new) s) else replace_from old new 0 s)"

fun replace_refs :: "(string \<times> nat option) list \<Rightarrow> string \<Rightarrow> State \<Rightarrow> string result" where
  "replace_refs [] cmd st = Ok cmd st"
| "replace_refs (m # ms) cmd st =
     (case snd m of
        None \<Rightarrow> Raise ValueError st
      | Some pk \<Rightarrow>
          (case find (\<lambda>f. tf_id f = Some pk) (task_files st) of
             None \<Rightarrow> Raise DoesNotExist st
           | Some taskfile \<Rightarrow>
               (case tf_path taskfile of
                  None \<Rightarrow> Raise TypeError st
                | Some p \<Rightarrow> replace_refs ms (replace_str (fst m) p cmd) st)))"

text \<open>
  Modelled from the spec: \<^verbatim>\<open>JobManager.add_jobAttempt\<close> and \<^verbatim>\<open>JobManager.submit_job\<close> are
  not among the sources. Section 4.3 of the specification: \<^verbatim>\<open>add_jobAttempt\<close> creates a
  JobAttempt for the task with the rendered command, not yet submitted; \<^verbatim>\<open>submit_job\<close>
  hands the attempt to the DRM driver, stores the job id it returns and moves the attempt
  to \<^verbatim>\<open>queued\<close>. The list \<^verbatim>\<open>drm_submitted\<close> of the state records the attempts handed to
  the DRM, by primary key.
\<close>

definition add_jobAttempt :: "nat \<Rightarrow> Task \<Rightarrow> string \<Rightarrow> State \<Rightarrow> JobAttempt \<times> State" where
  "add_jobAttempt jm task command st =
     (let ja = \<lparr>ja_id = new_id ja_id (job_attempts st), ja_jobManager = jm, ja_task = t_id task,
                ja_command = command, ja_drmaa_jobID = None, ja_queue_status = Not_submitted,
                ja_successful = False, ja_finished_on = None\<rparr>
      in (ja, st\<lparr>job_attempts := job_attempts st @ [ja]\<rparr>))"

definition submit_job :: "JobAttempt \<Rightarrow> State \<Rightarrow> JobAttempt \<times> State" where
  "submit_job ja st =
     (let ja' = ja\<lparr>ja_drmaa_jobID := Some (length (drm_submitted st) + 1),
                    ja_queue_status := Queued\<rparr>
      in (ja', st\<lparr>drm_submitted := drm_submitted st @ [ja_id ja],
                  job_attempts := map (\<lambda>x. if ja_id x = ja_id ja then ja' else x) (job_attempts st)\<rparr>))"

definition start_stage :: "datetime \<Rightarrow> Stage \<Rightarrow> State \<Rightarrow> State" where
  "start_stage now stage st =
     (if s_status stage = No_attempt \<or> s_status stage = Failed
      then (let stage1 = (if s_status stage = No_attempt
                          then stage\<lparr>s_started_on := Some now\<rparr> else stage);
                (stage2, st1) = Stage_set_status In_progress stage1 st
            in save_stage stage2 st1)
      else st)"

definition submit_attempt :: "Workflow \<Rightarrow> Task \<Rightarrow> string \<Rightarrow> State \<Rightarrow> JobAttempt result" where
  "submit_attempt self task command st =
     (case w_jobManager self of
        None \<Rightarrow> Raise AttributeError st
      | Some jm \<Rightarrow>
          (let (jobAttempt, st1) = add_jobAttempt jm task command st
           in if w_dry_run self then Ok jobAttempt st1
              else (let (jobAttempt', st2) = submit_job jobAttempt st1 in Ok jobAttempt' st2)))"

definition run_task ::
  "(string \<Rightarrow> (string \<times> nat option) list) \<Rightarrow> datetime \<Rightarrow> Workflow \<Rightarrow> Task \<Rightarrow> State
   \<Rightarrow> (Task \<times> JobAttempt option) result" where
  "run_task taskfile_refs now self task st =
     (if t_NOOP task then Ok (task, None) st
      else
        case find (\<lambda>s. s_id s = t_stage task) (stages st) of
          None \<Rightarrow> Raise DoesNotExist st
        | Some stage \<Rightarrow>
            (let (task1, st2) = Task_set_status In_progress task (start_stage now stage st)
             in case set_output_paths task1 (Task_output_files task1 st2) st2 of
                  Raise e s \<Rightarrow> Raise e s
                | Ok _ st3 \<Rightarrow>
                    (case replace_refs (taskfile_refs (t_pcmd task1)) (t_pcmd task1) st3 of
                       Raise e s \<Rightarrow> Raise e s
                     | Ok exec_command st4 \<Rightarrow>
                         (let task2 = task1\<lparr>t_exec_command := Some exec_command\<rparr>
                          in case submit_attempt self task2 exec_command st4 of
                               Raise e s \<Rightarrow> Raise e s
                             | Ok jobAttempt st6 \<Rightarrow>
                                 Ok (task2, Some jobAttempt) (save_task task2 st6)))))"

text \<open>
  \<^verbatim>\<open>
  def _reattempt_task(self,task,failed_jobAttempt):
      numAttempts = task.jobAttempts.count()
      if not task.successful: #ReRun jobAttempt
          if numAttempts < self.max_reattempts:
              self.log.warning(...)
              os.system('rm -rf {0}/*'.format(task.job_output_dir))
              self._run_task(task)
              return True
          else:
              self.log.warning(...)
              self.status = 'failed'
              self.save()
              return False
  \<close>
  For a successful task the function falls off its end and returns \<^verbatim>\<open>None\<close>. The attribute
  \<^verbatim>\<open>status\<close> is set on the workflow object; the Workflow table has no such column. The
  result is the returned value and the workflow object.
\<close>

definition reattempt_task ::
  "(string \<Rightarrow> (string \<times> nat option) list) \<Rightarrow> datetime \<Rightarrow> Workflow \<Rightarrow> Task \<Rightarrow> State
   \<Rightarrow> (bool option \<times> Workflow) result" where
  "reattempt_task taskfile_refs now self task st =
     (let numAttempts = length (filter (\<lambda>ja. ja_task ja = t_id task) (job_attempts st))
      in if \<not> t_successful task
         then if int numAttempts < w_max_reattempts self
              then (case Task_job_output_dir task st of
                      Raise e s \<Rightarrow> Raise e s
                    | Ok d _ \<Rightarrow>
                        (case run_task taskfile_refs now self task (st\<lparr>fs := rm_rf_glob d (fs st)\<rparr>) of
                           Raise e s \<Rightarrow> Raise e s
                         | Ok _ st1 \<Rightarrow> Ok (Some True, self) st1))
              else (let self' = self\<lparr>w_status := Some Failed\<rparr>
                    in Ok (Some False, self') (save_workflow self' st))
         else Ok (None, self) st)"

subsection \<open>The scheduling passes\<close>

text \<open>
  \<^verbatim>\<open>
  def run_ready_tasks(self):
      ready_tasks = [ n for n in self.get_ready_tasks() ]
      for n in ready_tasks:
          self.queue_task(n)
          self.workflow._run_task(n)
      if self.workflow.delete_intermediates:
          self.clear_intermediate_tasks()
      return ready_tasks
  \<close>
  of \<^verbatim>\<open>WorkflowManager\<close>; \<^verbatim>\<open>submit_ready\<close> is its loop over the list read once from the
  queryset, and returns the task objects as \<^verbatim>\<open>_run_task\<close> leaves them.
\<close>

fun submit_ready ::
  "(string \<Rightarrow> (string \<times> nat option) list) \<Rightarrow> datetime \<Rightarrow> Workflow \<Rightarrow> Task list
   \<Rightarrow> WorkflowManager \<Rightarrow> State \<Rightarrow> (Task list \<times> WorkflowManager) result" where
  "submit_ready taskfile_refs now workflow [] wm st = Ok ([], wm) st"
| "submit_ready taskfile_refs now workflow (n # ns) wm st =
     (case run_task taskfile_refs now workflow n st of
        Raise e s \<Rightarrow> Raise e s
      | Ok (n', _) st1 \<Rightarrow>
          (case submit_ready taskfile_refs now workflow ns (queue_task n wm) st1 of
             Raise e s \<Rightarrow> Raise e s
           | Ok (ns', wm') st2 \<Rightarrow> Ok (n' # ns', wm') st2))"

definition wm_run_ready_tasks ::
  "(string \<Rightarrow> (string \<times> nat option) list) \<Rightarrow> datetime \<Rightarrow> Workflow \<Rightarrow> WorkflowManager \<Rightarrow> State
   \<Rightarrow> (Task list \<times> WorkflowManager) result" where
  "wm_run_ready_tasks taskfile_refs now workflow wm st =
     (case submit_ready taskfile_refs now workflow (get_ready_tasks wm st) wm st of
        Raise e s \<Rightarrow> Raise e s
      | Ok (ready_tasks, wm1) st1 \<Rightarrow>
          if w_delete_intermediates workflow
          then (case clear_intermediate_tasks workflow wm1 st1 of
                  Raise e s \<Rightarrow> Raise e s
                | Ok wm2 st2 \<Rightarrow> Ok (ready_tasks, wm2) st2)
          else Ok (ready_tasks, wm1) st1)"

text \<open>
  \<^verbatim>\<open>
  def run(self,terminate_on_fail=True,finish=True):
      wfDAG = WorkflowManager(self)
      def run_ready_tasks():
          submitted_tasks = wfDAG.run_ready_tasks()
          for st in submitted_tasks:
              if st.NOOP:
                  st._has_finished('NOOP')
                  wfDAG.complete_task(st)
          if submitted_tasks:
              run_ready_tasks()
      run_ready_tasks()
      for jobAttempt in self.jobManager.yield_all_queued_jobs():
          task = jobAttempt.task
          if jobAttempt.successful or task.succeed_on_failure:
              task._has_finished(jobAttempt)
              wfDAG.complete_task(task)
              run_ready_tasks()
          else:
              if not self._reattempt_task(task,jobAttempt):
                  task._has_finished(jobAttempt) #job has failed and out of reattempts
                  if terminate_on_fail:
                      self.terminate()
      if finish: self.finished()
      return
  \<close>
  \<^verbatim>\<open>complete_noops\<close> is the loop over \<^verbatim>\<open>submitted_tasks\<close> of the inner function.
\<close>

fun complete_noops :: "datetime \<Rightarrow> Task list \<Rightarrow> WorkflowManager \<Rightarrow> State \<Rightarrow> WorkflowManager result" where
  "complete_noops now [] wm st = Ok wm st"
| "complete_noops now (t # ts) wm st =
     (if t_NOOP t
      then (case Task_has_finished now None t st of
              Raise e s \<Rightarrow> Raise e s
            | Ok t' st1 \<Rightarrow>
                (case complete_task t' wm of
                   Inl e \<Rightarrow> Raise e st1
                 | Inr wm1 \<Rightarrow> complete_noops now ts wm1 st1))
      else complete_noops now ts wm st)"

lemma Task_set_status_id:
  "Task_set_status s task st = (task', st') \<Longrightarrow> t_id task' = t_id task \<and> t_NOOP task' = t_NOOP task"
  by (auto simp: Task_set_status_def Let_def)

lemma run_task_Ok_id:
  assumes "run_task refs now self task st = Ok (task', ja) st'"
  shows "t_id task' = t_id task \<and> t_NOOP task' = t_NOOP task"
proof (cases "t_NOOP task")
  case True
  with assms show ?thesis by (simp add: run_task_def)
next
  case False
  obtain stage where stage: "find (\<lambda>s. s_id s = t_stage task) (stages st) = Some stage"
    using assms False by (cases "find (\<lambda>s. s_id s = t_stage task) (stages st)") (auto simp: run_task_def)
  obtain task1 st2 where ts: "Task_set_status In_progress task (start_stage now stage st) = (task1, st2)"
    by (cases "Task_set_status In_progress task (start_stage now stage st)") auto
  from Task_set_status_id[OF ts] have id1: "t_id task1 = t_id task \<and> t_NOOP task1 = t_NOOP task" .
  from assms False stage ts have "\<exists>c. task' = task1\<lparr>t_exec_command := Some c\<rparr>"
    by (auto simp: run_task_def Let_def split: result.splits)
  with id1 show ?thesis by auto
qed

lemma submit_ready_Ok:
  "submit_ready refs now workflow ns wm st = Ok (ns', wm') st' \<Longrightarrow>
     dag_queue wm' = dag_queue wm \<and> dag wm' = dag wm
   \<and> queued_tasks wm' = queued_tasks wm @ map t_id ns
   \<and> map t_id ns' = map t_id ns \<and> map t_NOOP ns' = map t_NOOP ns"
proof (induction ns arbitrary: wm st ns' wm' st')
  case Nil
  then show ?case by simp
next
  case (Cons n ns)
  from Cons.prems obtain n' j st1 ns1 where
    r: "run_task refs now workflow n st = Ok (n', j) st1"
    and s: "submit_ready refs now workflow ns (queue_task n wm) st1 = Ok (ns1, wm') st'"
    and e: "ns' = n' # ns1"
    by (auto split: result.splits prod.splits)
  from Cons.IH[OF s] run_task_Ok_id[OF r] e show ?case
    by (simp add: queue_task_def)
qed

lemma clear_tasks_wm:
  "clear_tasks ts wm st = Ok wm' st' \<Longrightarrow>
     dag_queue wm' = dag_queue wm \<and> queued_tasks wm' = queued_tasks wm"
proof (induction ts arbitrary: wm st)
  case Nil
  then show ?case by simp
next
  case (Cons t ts)
  from Cons.prems obtain t' st1 where c: "clear_job_output_dir t st = Ok t' st1"
    and rest: "clear_tasks ts (set_cleared (t_id t') wm) st1 = Ok wm' st'"
    by (auto split: result.splits if_splits)
  from Cons.IH[OF rest] show ?case by (simp add: set_cleared_def)
qed

lemma clear_intermediate_tasks_wm:
  "clear_intermediate_tasks workflow wm st = Ok wm' st' \<Longrightarrow>
     dag_queue wm' = dag_queue wm \<and> queued_tasks wm' = queued_tasks wm"
  by (auto simp: clear_intermediate_tasks_def split: sum.splits dest: clear_tasks_wm)

lemma wm_run_ready_tasks_Ok:
  assumes "wm_run_ready_tasks refs now workflow wm st = Ok (ready, wm') st'"
  shows "dag_queue wm' = dag_queue wm
       \<and> queued_tasks wm' = queued_tasks wm @ map t_id (get_ready_tasks wm st)
       \<and> map t_id ready = map t_id (get_ready_tasks wm st)
       \<and> map t_NOOP ready = map t_NOOP (get_ready_tasks wm st)"
proof -
  from assms obtain wm1 st1 where
    s: "submit_ready refs now workflow (get_ready_tasks wm st) wm st = Ok (ready, wm1) st1"
    and c: "wm' = wm1 \<or> (\<exists>st1. clear_intermediate_tasks workflow wm1 st1 = Ok wm' st')"
    by (auto simp: wm_run_ready_tasks_def split: result.splits prod.splits if_splits)
  from c clear_intermediate_tasks_wm have "dag_queue wm' = dag_queue wm1 \<and> queued_tasks wm' = queued_tasks wm1"
    by blast
  with submit_ready_Ok[OF s] show ?thesis by simp
qed

lemma complete_task_wm:
  "complete_task task wm = Inr wm' \<Longrightarrow>
     g_nodes (dag_queue wm') = filter (\<lambda>n. n \<noteq> t_id task) (g_nodes (dag_queue wm))
   \<and> queued_tasks wm' = queued_tasks wm"
  by (auto simp: complete_task_def remove_node_def g_nodes_drop_node split: if_splits)

lemma complete_noops_wm:
  "complete_noops now ts wm st = Ok wm' st' \<Longrightarrow>
     set (g_nodes (dag_queue wm')) \<subseteq> set (g_nodes (dag_queue wm))
   \<and> queued_tasks wm' = queued_tasks wm"
proof (induction ts arbitrary: wm st)
  case Nil
  then show ?case by simp
next
  case (Cons t ts)
  show ?case
  proof (cases "t_NOOP t")
    case False
    with Cons.prems have "complete_noops now ts wm st = Ok wm' st'" by simp
    from Cons.IH[OF this] show ?thesis .
  next
    case True
    with Cons.prems obtain t' st1 wm1 where h: "Task_has_finished now None t st = Ok t' st1"
      and c: "complete_task t' wm = Inr wm1"
      and rest: "complete_noops now ts wm1 st1 = Ok wm' st'"
      by (auto split: result.splits sum.splits)
    from Cons.IH[OF rest] complete_task_wm[OF c] show ?thesis by auto
  qed
qed

lemma get_ready_tasks_ids:
  "t \<in> set (get_ready_tasks wm st) \<Longrightarrow>
     t \<in> set (tasks st) \<and> t_id t \<in> set (g_nodes (dag_queue wm)) \<and> t_id t \<notin> set (queued_tasks wm)"
  by (auto simp: get_ready_tasks_def Let_def degree_0_tasks)

lemma get_ready_tasks_distinct:
  "distinct (map t_id (tasks st)) \<Longrightarrow> distinct (map t_id (get_ready_tasks wm st))"
  by (simp add: get_ready_tasks_def Let_def distinct_map_filter)

text \<open>
  The inner function \<^verbatim>\<open>run_ready_tasks\<close> of \<^verbatim>\<open>run\<close>. It calls itself as long as a pass
  submits a task; every pass that submits one moves a node of \<^verbatim>\<open>dag_queue\<close> into
  \<^verbatim>\<open>queued_tasks\<close>, which is the measure of its termination.
\<close>

function run_ready_tasks ::
  "(string \<Rightarrow> (string \<times> nat option) list) \<Rightarrow> datetime \<Rightarrow> Workflow \<Rightarrow> WorkflowManager \<Rightarrow> State
   \<Rightarrow> WorkflowManager result" where
  "run_ready_tasks taskfile_refs now self wfDAG st =
     (case wm_run_ready_tasks taskfile_refs now self wfDAG st of
        Raise e s \<Rightarrow> Raise e s
      | Ok (submitted_tasks, wm1) st1 \<Rightarrow>
          (case complete_noops now submitted_tasks wm1 st1 of
             Raise e s \<Rightarrow> Raise e s
           | Ok wm2 st2 \<Rightarrow>
               if submitted_tasks \<noteq> [] then run_ready_tasks taskfile_refs now self wm2 st2
               else Ok wm2 st2))"
  by pat_completeness auto
termination
proof (relation "measure (\<lambda>(refs, now, self, wm, st).
         card (set (g_nodes (dag_queue wm)) - set (queued_tasks wm)))")
  show "wf (measure (\<lambda>(refs, now, self, wm, st).
         card (set (g_nodes (dag_queue wm)) - set (queued_tasks wm))))" by simp
next
  fix taskfile_refs now self wfDAG st x1 st1 submitted_tasks wm1 wm2 st2
  assume r: "wm_run_ready_tasks taskfile_refs now self wfDAG st = Ok x1 st1"
    and x: "(submitted_tasks, wm1) = x1"
    and c: "complete_noops now submitted_tasks wm1 st1 = Ok wm2 st2"
    and ne: "submitted_tasks \<noteq> []"
  from r x have r': "wm_run_ready_tasks taskfile_refs now self wfDAG st = Ok (submitted_tasks, wm1) st1"
    by simp
  note w1 = wm_run_ready_tasks_Ok[OF r']
  note w2 = complete_noops_wm[OF c]
  let ?A = "set (g_nodes (dag_queue wfDAG)) - set (queued_tasks wfDAG)"
  let ?B = "set (g_nodes (dag_queue wm2)) - set (queued_tasks wm2)"
  from ne w1 have "get_ready_tasks wfDAG st \<noteq> []" by (metis map_is_Nil_conv)
  then obtain t where t: "t \<in> set (get_ready_tasks wfDAG st)" by (cases "get_ready_tasks wfDAG st") auto
  from get_ready_tasks_ids[OF t] have tA: "t_id t \<in> ?A" by simp
  have tq: "t_id t \<in> set (queued_tasks wm2)" using w1 w2 t by auto
  have sub: "?B \<subseteq> ?A" using w1 w2 by auto
  have "?B \<subset> ?A" using sub tA tq by blast
  then have "card ?B < card ?A" by (intro psubset_card_mono) auto
  then show "((taskfile_refs, now, self, wm2, st2), (taskfile_refs, now, self, wfDAG, st))
      \<in> measure (\<lambda>(refs, now, self, wm, st).
         card (set (g_nodes (dag_queue wm)) - set (queued_tasks wm)))" by simp
qed

declare run_ready_tasks.simps [simp del]

lemma submit_ready_snap:
  assumes "submit_ready refs now workflow ns wm st = Ok (ns', wm') st'" "t' \<in> set ns'"
  shows "\<exists>t\<in>set ns. t_id t' = t_id t \<and> t_NOOP t' = t_NOOP t"
  using assms
proof (induction ns arbitrary: wm st ns' wm' st')
  case Nil
  then show ?case by simp
next
  case (Cons n ns)
  from Cons.prems(1) obtain n' j st1 ns1 where
    r: "run_task refs now workflow n st = Ok (n', j) st1"
    and s: "submit_ready refs now workflow ns (queue_task n wm) st1 = Ok (ns1, wm') st'"
    and e: "ns' = n' # ns1"
    by (auto split: result.splits prod.splits)
  show ?case
  proof (cases "t' = n'")
    case True
    with run_task_Ok_id[OF r] show ?thesis by simp
  next
    case False
    with Cons.prems(2) e have "t' \<in> set ns1" by simp
    from Cons.IH[OF s this] show ?thesis by auto
  qed
qed

subsection \<open>The loop over the finished attempts\<close>

datatype outcome =
    Returned Workflow WorkflowManager State
  | Blocked Workflow WorkflowManager State
  | Raised error State

text \<open>
  Modelled from the spec: \<^verbatim>\<open>JobManager.yield_all_queued_jobs\<close> is not among the sources.
  Section 4.3 of the specification makes it a blocking sequence that yields each queued
  attempt once, when the DRM reports its end, in completion order, with \<^verbatim>\<open>successful\<close>
  set and \<^verbatim>\<open>queue_status = completed\<close>, and that ends when no attempt is queued. The
  reports of the DRM are the list \<^verbatim>\<open>events\<close>: the time of the report, the primary key of
  the attempt, its success. A report for an attempt that is not queued is skipped. When the
  reports are used up and an attempt is still queued, the loop waits: the outcome
  \<^verbatim>\<open>Blocked\<close> holds the workflow object, the scheduler \<^verbatim>\<open>wfDAG\<close> and the state at that
  moment, so the outcomes over all lists of reports are the states of \<^verbatim>\<open>run\<close> between two
  reports and at its end. \<^verbatim>\<open>Returned\<close> is the return of \<^verbatim>\<open>run\<close>, with the scheduler as
  \<^verbatim>\<open>run\<close> leaves it, \<^verbatim>\<open>Raised\<close> an exception (\<^verbatim>\<open>SystemExit\<close> from \<^verbatim>\<open>terminate\<close> among
  them) with the state at the raise. \<^verbatim>\<open>loop_body\<close> is the body of the \<^verbatim>\<open>for\<close> loop of \<^verbatim>\<open>run\<close>,
  \<^verbatim>\<open>after_loop\<close> what follows the loop.
\<close>

definition mark_completed :: "nat \<Rightarrow> nat \<Rightarrow> bool \<Rightarrow> datetime \<Rightarrow> State \<Rightarrow> State" where
  "mark_completed jm jid ok now st =
     st\<lparr>job_attempts :=
          map (\<lambda>x. if ja_id x = jid \<and> ja_jobManager x = jm \<and> ja_queue_status x = Queued
                    then x\<lparr>ja_queue_status := Completed, ja_successful := ok,
                           ja_finished_on := Some now\<rparr>
                    else x) (job_attempts st)\<rparr>"

definition loop_body ::
  "(string \<Rightarrow> (string \<times> nat option) list) \<Rightarrow> bool \<Rightarrow> datetime \<Rightarrow> JobAttempt
   \<Rightarrow> Workflow \<Rightarrow> WorkflowManager \<Rightarrow> State \<Rightarrow> (Workflow \<times> WorkflowManager) result" where
  "loop_body taskfile_refs terminate_on_fail now jobAttempt self wfDAG st =
     (case find (\<lambda>x. t_id x = ja_task jobAttempt) (tasks st) of
        None \<Rightarrow> Raise DoesNotExist st
      | Some task \<Rightarrow>
          if ja_successful jobAttempt \<or> t_succeed_on_failure task
          then (case Task_has_finished now (Some jobAttempt) task st of
                  Raise e s \<Rightarrow> Raise e s
                | Ok task' st1 \<Rightarrow>
                    (case complete_task task' wfDAG of
                       Inl e \<Rightarrow> Raise e st1
                     | Inr wm1 \<Rightarrow>
                         (case run_ready_tasks taskfile_refs now self wm1 st1 of
                            Raise e s \<Rightarrow> Raise e s
                          | Ok wm2 st2 \<Rightarrow> Ok (self, wm2) st2)))
          else (case reattempt_task taskfile_refs now self task st of
                  Raise e s \<Rightarrow> Raise e s
                | Ok (r, self1) st1 \<Rightarrow>
                    if r = Some True then Ok (self1, wfDAG) st1
                    else (case Task_has_finished now (Some jobAttempt) task st1 of
                            Raise e s \<Rightarrow> Raise e s
                          | Ok _ st2 \<Rightarrow>
                              if terminate_on_fail
                              then (let (e, self2, st3) = terminate now now now now self1 st2
                                    in Raise e st3)
                              else Ok (self1, wfDAG) st2)))"

definition after_loop ::
  "bool \<Rightarrow> datetime \<Rightarrow> Workflow \<Rightarrow> WorkflowManager \<Rightarrow> State \<Rightarrow> outcome" where
  "after_loop finish now self wfDAG st =
     (if finish then (let (self', st') = finished now self st in Returned self' wfDAG st')
      else Returned self wfDAG st)"

fun run_loop ::
  "(string \<Rightarrow> (string \<times> nat option) list) \<Rightarrow> bool \<Rightarrow> bool \<Rightarrow> nat \<Rightarrow> datetime
   \<Rightarrow> (datetime \<times> nat \<times> bool) list \<Rightarrow> Workflow \<Rightarrow> WorkflowManager \<Rightarrow> State \<Rightarrow> outcome" where
  "run_loop taskfile_refs terminate_on_fail finish jm now [] self wfDAG st =
     (if queued_jobAttempts jm st = [] then after_loop finish now self wfDAG st
      else Blocked self wfDAG st)"
| "run_loop taskfile_refs terminate_on_fail finish jm now (ev # evs) self wfDAG st =
     (if queued_jobAttempts jm st = [] then after_loop finish now self wfDAG st
      else
        (case find (\<lambda>ja. ja_id ja = fst (snd ev)) (queued_jobAttempts jm st) of
           None \<Rightarrow> run_loop taskfile_refs terminate_on_fail finish jm now evs self wfDAG st
         | Some ja \<Rightarrow>
             (let t = fst ev;
                  jobAttempt = ja\<lparr>ja_queue_status := Completed, ja_successful := snd (snd ev),
                                  ja_finished_on := Some t\<rparr>;
                  st1 = mark_completed jm (ja_id ja) (snd (snd ev)) t st
              in case loop_body taskfile_refs terminate_on_fail t jobAttempt self wfDAG st1 of
                   Raise e s \<Rightarrow> Raised e s
                 | Ok (self1, wm1) st2 \<Rightarrow>
                     run_loop taskfile_refs terminate_on_fail finish jm t evs self1 wm1 st2)))"

definition run ::
  "(string \<Rightarrow> (string \<times> nat option) list) \<Rightarrow> bool \<Rightarrow> bool \<Rightarrow> datetime
   \<Rightarrow> (datetime \<times> nat \<times> bool) list \<Rightarrow> Workflow \<Rightarrow> State \<Rightarrow> outcome" where
  "run taskfile_refs terminate_on_fail finish now events self st =
     (let wfDAG = WorkflowManager_init self st
      in case run_ready_tasks taskfile_refs now self wfDAG st of
           Raise e s \<Rightarrow> Raised e s
         | Ok wm1 st1 \<Rightarrow>
             (case w_jobManager self of
                None \<Rightarrow> Raised AttributeError st1
              | Some jm \<Rightarrow>
                  run_loop taskfile_refs terminate_on_fail finish jm now events self wm1 st1))"

text \<open>Examples: a workflow with one stage and one task, and a command without file references.\<close>

definition no_refs :: "string \<Rightarrow> (string \<times> nat option) list" where
  "no_refs cmd = []"

definition example_single :: "bool \<Rightarrow> State" where
  "example_single noop =
     empty_state\<lparr>workflows := [example_workflow],
       stages := [mk_stage 1 No_attempt False None],
       tasks := [mk_task 1 1 No_attempt False noop None]\<rparr>"

subsection \<open>What a run can change in the Task and JobAttempt tables\<close>

text \<open>
  \<^verbatim>\<open>ja_keys\<close> lists the JobAttempt rows by primary key and task. \<^verbatim>\<open>step T0 added st st'\<close>
  relates two states of a run that started with the Task table \<^verbatim>\<open>T0\<close>: every Task row of
  \<^verbatim>\<open>st'\<close> has the id and the \<^verbatim>\<open>NOOP\<close> flag of a row of \<^verbatim>\<open>T0\<close>, the attempts \<^verbatim>\<open>added\<close> were
  appended and belong to tasks that are not \<^verbatim>\<open>NOOP\<close> in \<^verbatim>\<open>T0\<close>, every attempt handed to
  the DRM is one of them, and distinct task ids stay distinct.
\<close>

definition ja_keys :: "State \<Rightarrow> (nat \<times> nat) list" where
  "ja_keys st = map (\<lambda>ja. (ja_id ja, ja_task ja)) (job_attempts st)"

definition variant :: "Task \<Rightarrow> Task \<Rightarrow> bool" where
  "variant r t = (t_id t = t_id r \<and> t_NOOP t = t_NOOP r)"

definition snap :: "Task list \<Rightarrow> Task \<Rightarrow> bool" where
  "snap T0 t = (\<exists>r\<in>set T0. variant r t)"

definition tbl_ok :: "Task list \<Rightarrow> State \<Rightarrow> bool" where
  "tbl_ok T0 st = (\<forall>r\<in>set (tasks st). snap T0 r)"

definition nonnoop :: "Task list \<Rightarrow> nat \<Rightarrow> bool" where
  "nonnoop T0 tid = (\<exists>r\<in>set T0. t_id r = tid \<and> \<not> t_NOOP r)"

definition step :: "Task list \<Rightarrow> (nat \<times> nat) list \<Rightarrow> State \<Rightarrow> State \<Rightarrow> bool" where
  "step T0 added st st' =
     (tbl_ok T0 st'
    \<and> ja_keys st' = ja_keys st @ added
    \<and> (\<forall>k\<in>set added. nonnoop T0 (snd k))
    \<and> (\<exists>subs. drm_submitted st' = drm_submitted st @ subs \<and> set subs \<subseteq> fst ` set added)
    \<and> (distinct (map t_id (tasks st)) \<longrightarrow> distinct (map t_id (tasks st'))))"

definition same_core :: "State \<Rightarrow> State \<Rightarrow> bool" where
  "same_core st st' =
     (tasks st' = tasks st \<and> job_attempts st' = job_attempts st
      \<and> drm_submitted st' = drm_submitted st)"

fun result_state :: "'a result \<Rightarrow> State" where
  "result_state (Ok _ s) = s"
| "result_state (Raise _ s) = s"

fun outcome_state :: "outcome \<Rightarrow> State" where
  "outcome_state (Returned _ _ s) = s"
| "outcome_state (Blocked _ _ s) = s"
| "outcome_state (Raised _ s) = s"

lemma snap_variant: "snap T0 t \<Longrightarrow> variant t t' \<Longrightarrow> snap T0 t'"
  by (auto simp: snap_def variant_def)

lemma snap_nonnoop: "snap T0 t \<Longrightarrow> \<not> t_NOOP t \<Longrightarrow> nonnoop T0 (t_id t)"
  by (auto simp: snap_def variant_def nonnoop_def)

lemma tbl_ok_snap: "tbl_ok T0 st \<Longrightarrow> t \<in> set (tasks st) \<Longrightarrow> snap T0 t"
  by (simp add: tbl_ok_def)

lemma tbl_ok_init: "tbl_ok (tasks st) st"
  by (auto simp: tbl_ok_def snap_def variant_def)

lemma same_core_refl [simp]: "same_core st st"
  by (simp add: same_core_def)

lemma same_core_trans: "same_core st st1 \<Longrightarrow> same_core st1 st2 \<Longrightarrow> same_core st st2"
  by (simp add: same_core_def)

lemma step_same: "tbl_ok T0 st \<Longrightarrow> same_core st st' \<Longrightarrow> step T0 [] st st'"
  by (simp add: step_def same_core_def tbl_ok_def ja_keys_def)

lemma step_refl: "tbl_ok T0 st \<Longrightarrow> step T0 [] st st"
  by (simp add: step_same)

lemma step_trans:
  assumes a: "step T0 a st st1" and b: "step T0 b st1 st2"
  shows "step T0 (a @ b) st st2"
proof -
  from a obtain s1 where s1: "drm_submitted st1 = drm_submitted st @ s1" "set s1 \<subseteq> fst ` set a"
    by (auto simp: step_def)
  from b obtain s2 where s2: "drm_submitted st2 = drm_submitted st1 @ s2" "set s2 \<subseteq> fst ` set b"
    by (auto simp: step_def)
  have "drm_submitted st2 = drm_submitted st @ (s1 @ s2) \<and> set (s1 @ s2) \<subseteq> fst ` set (a @ b)"
    using s1 s2 by auto
  then have "\<exists>subs. drm_submitted st2 = drm_submitted st @ subs \<and> set subs \<subseteq> fst ` set (a @ b)"
    by blast
  moreover have "tbl_ok T0 st2" "ja_keys st2 = ja_keys st @ (a @ b)"
    "\<forall>k\<in>set (a @ b). nonnoop T0 (snd k)"
    "distinct (map t_id (tasks st)) \<longrightarrow> distinct (map t_id (tasks st2))"
    using a b by (auto simp: step_def)
  ultimately show ?thesis unfolding step_def by blast
qed

lemma step_trans_nil: "step T0 [] st st1 \<Longrightarrow> step T0 b st1 st2 \<Longrightarrow> step T0 b st st2"
  using step_trans[of T0 "[]" st st1 b st2] by simp

lemma step_trans_nil2: "step T0 a st st1 \<Longrightarrow> step T0 [] st1 st2 \<Longrightarrow> step T0 a st st2"
  using step_trans[of T0 a st st1 "[]" st2] by simp

lemma step_tbl_ok: "step T0 a st st' \<Longrightarrow> tbl_ok T0 st'"
  by (simp add: step_def)

lemma step_save_task:
  assumes "tbl_ok T0 st" "snap T0 t"
  shows "step T0 [] st (save_task t st)"
proof -
  have "tbl_ok T0 (save_task t st)"
    using assms set_upsert_subset[of t_id t "tasks st"]
    by (auto simp: tbl_ok_def save_task_def)
  moreover have "distinct (map t_id (tasks st)) \<longrightarrow> distinct (map t_id (tasks (save_task t st)))"
    by (simp add: save_task_def distinct_upsert)
  ultimately show ?thesis by (simp add: step_def ja_keys_def save_task_def)
qed

lemma same_core_save_stage [simp]: "same_core st (save_stage b st)"
  by (simp add: same_core_def save_stage_def)

lemma same_core_save_workflow [simp]: "same_core st (save_workflow w st)"
  by (simp add: same_core_def save_workflow_def)

lemma same_core_check_dir [simp]: "same_core st (check_and_create_output_dir d st)"
  by (simp add: same_core_def check_and_create_output_dir_def)

lemma same_core_fs [simp]: "same_core st (st\<lparr>fs := x\<rparr>)"
  by (simp add: same_core_def)

lemma same_core_save_task_file [simp]: "same_core st (save_task_file f st)"
  by (simp add: same_core_def save_task_file_def)

lemma same_core_finished: "same_core st (snd (finished now self st))"
  by (simp add: finished_def Let_def)

lemma same_core_Stage_set_status: "same_core st (snd (Stage_set_status s b st))"
  by (simp add: Stage_set_status_def Let_def)

lemma Task_output_dir_result: "result_state (Task_output_dir task st) = st"
  by (simp add: Task_output_dir_def split: option.splits)

lemma Task_job_output_dir_result: "result_state (Task_job_output_dir task st) = st"
  using Task_output_dir_result[of task st]
  by (cases "Task_output_dir task st") (simp_all add: Task_job_output_dir_def)

lemma same_core_set_output_paths: "same_core st (result_state (set_output_paths task fl st))"
proof (induction fl arbitrary: st)
  case Nil
  show ?case by simp
next
  case (Cons f rest)
  show ?case
  proof (cases "truthy (tf_path f)")
    case True
    let ?st2 = "(if tf_fmt f = Some ''dir''
                 then check_and_create_output_dir (str_or_None (tf_path f)) st else st)"
    have "same_core st ?st2" by simp
    then have r: "same_core st (result_state (set_output_paths task rest ?st2))"
      using Cons.IH[of ?st2] by (rule same_core_trans)
    have unf: "set_output_paths task (f # rest) st = set_output_paths task rest ?st2"
      using True by simp
    show ?thesis unfolding unf by (rule r)
  next
    case False
    show ?thesis
    proof (cases "Task_job_output_dir task st")
      case (Raise e s)
      with Task_job_output_dir_result[of task st] have "s = st" by simp
      with Raise False show ?thesis by simp
    next
      case (Ok d s0)
      let ?f1 = "f\<lparr>tf_path := Some (path_join d
                   ((if tf_name f = tf_fmt f then ''out'' else str_or_None (tf_name f))
                    @ ''.'' @ str_or_None (tf_fmt f)))\<rparr>"
      let ?st1 = "save_task_file ?f1 st"
      let ?st2 = "(if tf_fmt ?f1 = Some ''dir''
                 then check_and_create_output_dir (str_or_None (tf_path ?f1)) ?st1 else ?st1)"
      have "same_core st ?st1" by simp
      moreover have "same_core ?st1 ?st2" by simp
      ultimately have "same_core st ?st2" by (rule same_core_trans)
      then have r: "same_core st (result_state (set_output_paths task rest ?st2))"
        using Cons.IH[of ?st2] by (rule same_core_trans)
      have unf: "set_output_paths task (f # rest) st = set_output_paths task rest ?st2"
        using Ok False by (simp add: Let_def)
      show ?thesis unfolding unf by (rule r)
    qed
  qed
qed

lemma replace_refs_state: "result_state (replace_refs ms cmd st) = st"
  by (induction ms arbitrary: cmd) (auto split: option.splits)

lemma same_core_Stage_has_finished: "same_core st (result_state (Stage_has_finished now b st))"
proof -
  have a: "\<And>s. same_core st (save_stage (fst (Stage_set_status s b st)\<lparr>s_finished_on := Some now\<rparr>)
                 (snd (Stage_set_status s b st)))"
    using same_core_trans[OF same_core_Stage_set_status same_core_save_stage] by blast
  show ?thesis
    using a[of Successful] a[of Failed]
    by (simp add: Stage_has_finished_def Let_def split_beta)
qed

lemma Task_set_status_step:
  assumes ok: "tbl_ok T0 st" and sn: "snap T0 task"
    and r: "Task_set_status s task st = (task', st')"
  shows "step T0 [] st st'" and "snap T0 task'" and "t_id task' = t_id task"
proof -
  let ?t = "task\<lparr>t_status := s, t_successful := (if s = Successful then True else t_successful task)\<rparr>"
  from r have e: "task' = ?t" "st' = save_task ?t st"
    by (auto simp add: Task_set_status_def Let_def)
  have v: "variant task ?t" by (simp add: variant_def)
  from snap_variant[OF sn v] show "snap T0 task'" by (simp add: e)
  from step_save_task[OF ok snap_variant[OF sn v]] show "step T0 [] st st'" by (simp add: e)
  show "t_id task' = t_id task" by (simp add: e)
qed

lemma same_core_start_stage: "same_core st (start_stage now stage st)"
proof -
  have "\<And>b. same_core st (save_stage (fst (Stage_set_status In_progress b st))
                (snd (Stage_set_status In_progress b st)))"
    using same_core_trans[OF same_core_Stage_set_status same_core_save_stage] by blast
  then show ?thesis by (simp add: start_stage_def Let_def split_beta)
qed

lemma Task_has_finished_step:
  assumes ok: "tbl_ok T0 st" and sn: "snap T0 task"
  shows "step T0 [] st (result_state (Task_has_finished now ja task st))"
    and "Task_has_finished now ja task st = Ok t' s \<Longrightarrow> snap T0 t' \<and> t_id t' = t_id task"
proof -
  let ?c = "ja = None \<or> t_succeed_on_failure task
                \<or> length (filter (\<lambda>j. ja_task j = t_id task \<and> ja_successful j = True)
                             (job_attempts st)) > 0"
  let ?p = "(if ?c then Task_set_status Successful task st else Task_set_status Failed task st)"
  obtain task1 st1 where p: "?p = (task1, st1)" by (cases ?p) auto
  then have "\<exists>x. Task_set_status x task st = (task1, st1)" by (auto split: if_splits)
  then obtain x where ts: "Task_set_status x task st = (task1, st1)" by blast
  note s1 = Task_set_status_step[OF ok sn ts]
  let ?t2 = "task1\<lparr>t_finished_on := Some now\<rparr>"
  have v2: "snap T0 ?t2" using snap_variant[OF s1(2)] by (simp add: variant_def)
  have id2: "t_id ?t2 = t_id task" using s1(3) by simp
  have unf: "Task_has_finished now ja task st =
      (case find (\<lambda>s. s_id s = t_stage ?t2) (stages st1) of
           None \<Rightarrow> Raise DoesNotExist st1
         | Some stage \<Rightarrow>
             if are_all_tasks_done stage st1
             then (case Stage_has_finished now stage st1 of
                     Raise e s \<Rightarrow> Raise e s
                   | Ok _ st2 \<Rightarrow> Ok ?t2 st2)
             else Ok ?t2 st1)"
    using p by (simp add: Task_has_finished_def Let_def)
  have sc: "same_core st1 (result_state (Task_has_finished now ja task st))"
  proof (cases "find (\<lambda>s. s_id s = t_stage ?t2) (stages st1)")
    case None
    then show ?thesis by (simp add: unf)
  next
    case (Some stage)
    show ?thesis
    proof (cases "are_all_tasks_done stage st1")
      case False
      with Some show ?thesis by (simp add: unf)
    next
      case True
      from same_core_Stage_has_finished[of st1 now stage] Some True show ?thesis
        by (cases "Stage_has_finished now stage st1") (simp_all add: unf)
    qed
  qed
  from step_trans_nil[OF s1(1) step_same[OF step_tbl_ok[OF s1(1)] sc]]
  show "step T0 [] st (result_state (Task_has_finished now ja task st))" .
  assume "Task_has_finished now ja task st = Ok t' s"
  then have "t' = ?t2" unfolding unf by (auto split: option.splits if_splits result.splits)
  with v2 id2 show "snap T0 t' \<and> t_id t' = t_id task" by simp
qed

lemma submit_attempt_step:
  assumes ok: "tbl_ok T0 st" and nn: "nonnoop T0 (t_id task)"
  shows "\<exists>added. step T0 added st (result_state (submit_attempt self task cmd st))
           \<and> (added = [] \<or> (\<exists>j. added = [(j, t_id task)]))"
proof (cases "w_jobManager self")
  case None
  then have "step T0 [] st (result_state (submit_attempt self task cmd st))"
    using step_refl[OF ok] by (simp add: submit_attempt_def)
  then show ?thesis by blast
next
  case (Some jm)
  let ?ja = "\<lparr>ja_id = new_id ja_id (job_attempts st), ja_jobManager = jm, ja_task = t_id task,
                ja_command = cmd, ja_drmaa_jobID = None, ja_queue_status = Not_submitted,
                ja_successful = False, ja_finished_on = None\<rparr>"
  let ?st1 = "st\<lparr>job_attempts := job_attempts st @ [?ja]\<rparr>"
  have a: "add_jobAttempt jm task cmd st = (?ja, ?st1)" by (simp add: add_jobAttempt_def Let_def)
  have s1: "step T0 [(ja_id ?ja, t_id task)] st ?st1"
    using ok nn by (simp add: step_def tbl_ok_def ja_keys_def)
  show ?thesis
  proof (cases "w_dry_run self")
    case True
    with Some a s1 have "step T0 [(ja_id ?ja, t_id task)] st (result_state (submit_attempt self task cmd st))"
      by (simp add: submit_attempt_def)
    then show ?thesis by blast
  next
    case False
    let ?ja' = "?ja\<lparr>ja_drmaa_jobID := Some (length (drm_submitted ?st1) + 1), ja_queue_status := Queued\<rparr>"
    let ?st2 = "?st1\<lparr>drm_submitted := drm_submitted ?st1 @ [ja_id ?ja],
                  job_attempts := map (\<lambda>x. if ja_id x = ja_id ?ja then ?ja' else x) (job_attempts ?st1)\<rparr>"
    have b: "submit_job ?ja ?st1 = (?ja', ?st2)" by (simp add: submit_job_def Let_def)
    have fresh: "\<And>x. x \<in> set (job_attempts st) \<Longrightarrow> ja_id x \<noteq> new_id ja_id (job_attempts st)"
      using new_id_fresh[of ja_id "job_attempts st"] by (metis imageI)
    have "map (\<lambda>ja. (ja_id ja, ja_task ja))
              (map (\<lambda>x. if ja_id x = ja_id ?ja then ?ja' else x) (job_attempts ?st1))
          = map (\<lambda>ja. (ja_id ja, ja_task ja)) (job_attempts ?st1)"
      using fresh by (auto simp: comp_def)
    then have "ja_keys ?st2 = ja_keys ?st1" by (simp add: ja_keys_def)
    then have s2: "step T0 [(ja_id ?ja, t_id task)] st ?st2"
      using s1 by (simp add: step_def tbl_ok_def)
    from Some False a b s2
    have "step T0 [(ja_id ?ja, t_id task)] st (result_state (submit_attempt self task cmd st))"
      by (simp add: submit_attempt_def)
    then show ?thesis by blast
  qed
qed

lemma run_task_step:
  assumes ok: "tbl_ok T0 st" and sn: "snap T0 task"
  shows "\<exists>added. step T0 added st (result_state (run_task refs now self task st))
           \<and> (added = [] \<or> (\<exists>j. added = [(j, t_id task)]))"
proof (cases "t_NOOP task")
  case True
  then have "step T0 [] st (result_state (run_task refs now self task st))"
    using step_refl[OF ok] by (simp add: run_task_def)
  then show ?thesis by blast
next
  case nn: False
  show ?thesis
  proof (cases "find (\<lambda>s. s_id s = t_stage task) (stages st)")
    case None
    with nn have "step T0 [] st (result_state (run_task refs now self task st))"
      using step_refl[OF ok] by (simp add: run_task_def)
    then show ?thesis by blast
  next
    case (Some stage)
    let ?st1 = "start_stage now stage st"
    have s1: "step T0 [] st ?st1" by (rule step_same[OF ok same_core_start_stage])
    obtain task1 st2 where ts: "Task_set_status In_progress task ?st1 = (task1, st2)"
      by (cases "Task_set_status In_progress task ?st1") auto
    note t1 = Task_set_status_step[OF step_tbl_ok[OF s1] sn ts]
    have s2: "step T0 [] st st2" by (rule step_trans_nil[OF s1 t1(1)])
    have unf: "run_task refs now self task st =
      (case set_output_paths task1 (Task_output_files task1 st2) st2 of
                  Raise e s \<Rightarrow> Raise e s
                | Ok _ st3 \<Rightarrow>
                    (case replace_refs (refs (t_pcmd task1)) (t_pcmd task1) st3 of
                       Raise e s \<Rightarrow> Raise e s
                     | Ok exec_command st4 \<Rightarrow>
                         (let task2 = task1\<lparr>t_exec_command := Some exec_command\<rparr>
                          in case submit_attempt self task2 exec_command st4 of
                               Raise e s \<Rightarrow> Raise e s
                             | Ok jobAttempt st6 \<Rightarrow>
                                 Ok (task2, Some jobAttempt) (save_task task2 st6))))"
      using nn Some ts by (simp add: run_task_def)
    have s3': "step T0 [] st (result_state (set_output_paths task1 (Task_output_files task1 st2) st2))"
      by (rule step_trans_nil[OF s2 step_same[OF step_tbl_ok[OF s2] same_core_set_output_paths]])
    show ?thesis
    proof (cases "set_output_paths task1 (Task_output_files task1 st2) st2")
      case (Raise e s)
      with s3' have "step T0 [] st (result_state (run_task refs now self task st))"
        by (simp add: unf)
      then show ?thesis by blast
    next
      case (Ok u st3)
      with s3' have s3: "step T0 [] st st3" by simp
      show ?thesis
      proof (cases "replace_refs (refs (t_pcmd task1)) (t_pcmd task1) st3")
        case (Raise e s)
        with replace_refs_state[of "refs (t_pcmd task1)" "t_pcmd task1" st3] have "s = st3" by simp
        with Raise Ok s3 have "step T0 [] st (result_state (run_task refs now self task st))"
          by (simp add: unf)
        then show ?thesis by blast
      next
        case rr: (Ok cmd st4)
        with replace_refs_state[of "refs (t_pcmd task1)" "t_pcmd task1" st3] have e4: "st4 = st3" by simp
        let ?task2 = "task1\<lparr>t_exec_command := Some cmd\<rparr>"
        have sn2: "snap T0 ?task2" using snap_variant[OF t1(2)] by (simp add: variant_def)
        have id2: "t_id ?task2 = t_id task" using t1(3) by simp
        have nn2: "nonnoop T0 (t_id ?task2)"
        proof -
          from ts have "t_NOOP task1 = t_NOOP task" by (auto simp: Task_set_status_def Let_def)
          with nn have "\<not> t_NOOP ?task2" by simp
          from snap_nonnoop[OF sn2 this] show ?thesis .
        qed
        from submit_attempt_step[OF step_tbl_ok[OF s3] nn2, of self cmd]
        obtain added where sa: "step T0 added st3 (result_state (submit_attempt self ?task2 cmd st3))"
          and ad: "added = [] \<or> (\<exists>j. added = [(j, t_id task)])" using id2 by auto
        have s5: "step T0 added st (result_state (submit_attempt self ?task2 cmd st3))"
          by (rule step_trans_nil[OF s3 sa])
        have "step T0 added st (result_state (run_task refs now self task st))"
        proof (cases "submit_attempt self ?task2 cmd st3")
          case (Raise e s)
          with s5 Ok rr e4 show ?thesis by (simp add: unf Let_def)
        next
          case sk: (Ok ja st6)
          with s5 have s6: "step T0 added st st6" by simp
          from step_trans_nil2[OF s6 step_save_task[OF step_tbl_ok[OF s6] sn2]]
          show ?thesis using Ok rr e4 sk by (simp add: unf Let_def)
        qed
        with ad show ?thesis by blast
      qed
    qed
  qed
qed

lemma count_keys: "length (filter (\<lambda>ja. ja_task ja = tid) (job_attempts st))
     = length (filter (\<lambda>k. snd k = tid) (ja_keys st))"
  by (simp add: ja_keys_def filter_map comp_def)

lemma reattempt_task_step:
  assumes ok: "tbl_ok T0 st" and sn: "snap T0 task"
  shows "\<exists>added. step T0 added st (result_state (reattempt_task refs now self task st))
           \<and> (added = [] \<or> ((\<exists>j. added = [(j, t_id task)])
                \<and> int (length (filter (\<lambda>k. snd k = t_id task) (ja_keys st))) < w_max_reattempts self))"
proof (cases "\<not> t_successful task
      \<and> int (length (filter (\<lambda>ja. ja_task ja = t_id task) (job_attempts st))) < w_max_reattempts self")
  case False
  then have "same_core st (result_state (reattempt_task refs now self task st))"
    by (auto simp: reattempt_task_def Let_def)
  from step_same[OF ok this] show ?thesis by blast
next
  case True
  then have lt: "int (length (filter (\<lambda>k. snd k = t_id task) (ja_keys st))) < w_max_reattempts self"
    by (simp add: count_keys)
  show ?thesis
  proof (cases "Task_job_output_dir task st")
    case (Raise e s)
    with Task_job_output_dir_result[of task st] have "s = st" by simp
    with Raise True have "step T0 [] st (result_state (reattempt_task refs now self task st))"
      using step_refl[OF ok] by (simp add: reattempt_task_def Let_def)
    then show ?thesis by blast
  next
    case (Ok d s0)
    let ?st1 = "st\<lparr>fs := rm_rf_glob d (fs st)\<rparr>"
    have s1: "step T0 [] st ?st1" by (rule step_same[OF ok]) simp
    from run_task_step[OF step_tbl_ok[OF s1] sn, of refs now self]
    obtain added where ra: "step T0 added ?st1 (result_state (run_task refs now self task ?st1))"
      and ad: "added = [] \<or> (\<exists>j. added = [(j, t_id task)])" by blast
    have "result_state (reattempt_task refs now self task st)
            = result_state (run_task refs now self task ?st1)"
      using True Ok by (cases "run_task refs now self task ?st1")
        (simp_all add: reattempt_task_def Let_def)
    with step_trans_nil[OF s1 ra]
    have "step T0 added st (result_state (reattempt_task refs now self task st))" by simp
    with ad lt show ?thesis by blast
  qed
qed

lemma clear_job_output_dir_step:
  assumes ok: "tbl_ok T0 st" and sn: "snap T0 task"
  shows "step T0 [] st (result_state (clear_job_output_dir task st))"
proof -
  let ?t = "task\<lparr>t_cleared_output_files := True\<rparr>"
  have sn': "snap T0 ?t" using snap_variant[OF sn] by (simp add: variant_def)
  show ?thesis
  proof (cases "t_dont_delete_output_files task")
    case True
    then show ?thesis using step_save_task[OF ok sn'] by (simp add: clear_job_output_dir_def Let_def)
  next
    case False
    show ?thesis
    proof (cases "Task_job_output_dir task st")
      case (Raise e s)
      with Task_job_output_dir_result[of task st] have "s = st" by simp
      with Raise False show ?thesis using step_refl[OF ok] by (simp add: clear_job_output_dir_def Let_def)
    next
      case (Ok d s)
      with Task_job_output_dir_result[of task st] have e: "s = st" by simp
      let ?st1 = "st\<lparr>fs := rm_rf_glob d (fs st)\<rparr>"
      have s1: "step T0 [] st ?st1" by (rule step_same[OF ok]) simp
      from step_trans_nil[OF s1 step_save_task[OF step_tbl_ok[OF s1] sn']]
      show ?thesis using Ok e False by (simp add: clear_job_output_dir_def Let_def)
    qed
  qed
qed

lemma clear_tasks_step:
  assumes "tbl_ok T0 st" "\<forall>t\<in>set ts. snap T0 t"
  shows "step T0 [] st (result_state (clear_tasks ts wm st))"
  using assms
proof (induction ts arbitrary: wm st)
  case Nil
  then show ?case by (simp add: step_refl)
next
  case (Cons t ts)
  from Cons.prems have sn: "snap T0 t" by simp
  note c = clear_job_output_dir_step[OF Cons.prems(1) sn]
  show ?case
  proof (cases "clear_job_output_dir t st")
    case (Raise e s)
    with c show ?thesis by simp
  next
    case (Ok t' st1)
    with c have s1: "step T0 [] st st1" by simp
    show ?thesis
    proof (cases "t_id t' \<in> set (g_nodes (dag wm))")
      case True
      from Cons.IH[OF step_tbl_ok[OF s1], of "set_cleared (t_id t') wm"] Cons.prems(2)
      have "step T0 [] st1 (result_state (clear_tasks ts (set_cleared (t_id t') wm) st1))" by simp
      from step_trans_nil[OF s1 this] show ?thesis using Ok True by simp
    next
      case False
      with Ok s1 show ?thesis by simp
    qed
  qed
qed

lemma Workflow_tasks_subset: "set (Workflow_tasks w st) \<subseteq> set (tasks st)"
  by (auto simp: Workflow_tasks_def)

lemma clear_intermediate_tasks_step:
  assumes ok: "tbl_ok T0 st"
  shows "step T0 [] st (result_state (clear_intermediate_tasks workflow wm st))"
proof -
  have "\<And>its. step T0 [] st (result_state
          (clear_tasks (filter (\<lambda>t. t_id t \<in> set its) (Workflow_tasks workflow st)) wm st))"
    using ok Workflow_tasks_subset[of workflow st]
    by (intro clear_tasks_step) (auto simp: tbl_ok_def)
  then show ?thesis using step_refl[OF ok]
    by (simp add: clear_intermediate_tasks_def split: sum.splits)
qed

lemma submit_ready_step:
  assumes "tbl_ok T0 st" "\<forall>t\<in>set ns. snap T0 t"
  shows "\<exists>added. step T0 added st (result_state (submit_ready refs now workflow ns wm st))
           \<and> subseq (map snd added) (map t_id ns)"
  using assms
proof (induction ns arbitrary: wm st)
  case Nil
  then have "step T0 [] st (result_state (submit_ready refs now workflow [] wm st))"
    by (simp add: step_refl)
  then show ?case by force
next
  case (Cons n ns)
  from Cons.prems have sn: "snap T0 n" by simp
  from run_task_step[OF Cons.prems(1) sn, of refs now workflow]
  obtain a1 where r1: "step T0 a1 st (result_state (run_task refs now workflow n st))"
    and ad1: "a1 = [] \<or> (\<exists>j. a1 = [(j, t_id n)])" by blast
  from ad1 have sub1: "subseq (map snd a1) [t_id n]" by auto
  show ?case
  proof (cases "run_task refs now workflow n st")
    case (Raise e s)
    with r1 have "step T0 a1 st (result_state (submit_ready refs now workflow (n # ns) wm st))"
      by simp
    moreover have "subseq (map snd a1) (map t_id (n # ns))"
      using ad1 by auto
    ultimately show ?thesis by blast
  next
    case (Ok x st1)
    obtain n' j where x: "x = (n', j)" by (cases x) auto
    from Ok r1 have s1: "step T0 a1 st st1" by simp
    from Cons.IH[OF step_tbl_ok[OF s1], of "queue_task n wm"] Cons.prems(2)
    obtain a2 where r2: "step T0 a2 st1 (result_state (submit_ready refs now workflow ns (queue_task n wm) st1))"
      and sub2: "subseq (map snd a2) (map t_id ns)" by auto
    have "result_state (submit_ready refs now workflow (n # ns) wm st)
        = result_state (submit_ready refs now workflow ns (queue_task n wm) st1)"
      using Ok x by (cases "submit_ready refs now workflow ns (queue_task n wm) st1") auto
    with step_trans[OF s1 r2]
    have "step T0 (a1 @ a2) st (result_state (submit_ready refs now workflow (n # ns) wm st))" by simp
    moreover have "subseq (map snd (a1 @ a2)) (map t_id (n # ns))"
      using list_emb_append_mono[OF sub1 sub2] by simp
    ultimately show ?thesis by blast
  qed
qed

lemma wm_run_ready_tasks_step:
  assumes ok: "tbl_ok T0 st"
  shows "\<exists>added. step T0 added st (result_state (wm_run_ready_tasks refs now workflow wm st))
           \<and> subseq (map snd added) (map t_id (get_ready_tasks wm st))"
proof -
  have "\<forall>t\<in>set (get_ready_tasks wm st). snap T0 t"
    using ok get_ready_tasks_ids[of _ wm st] by (auto simp: tbl_ok_def)
  from submit_ready_step[OF ok this, of refs now workflow wm]
  obtain added where r: "step T0 added st
       (result_state (submit_ready refs now workflow (get_ready_tasks wm st) wm st))"
    and sub: "subseq (map snd added) (map t_id (get_ready_tasks wm st))" by blast
  have "step T0 added st (result_state (wm_run_ready_tasks refs now workflow wm st))"
  proof (cases "submit_ready refs now workflow (get_ready_tasks wm st) wm st")
    case (Raise e s)
    with r show ?thesis by (simp add: wm_run_ready_tasks_def)
  next
    case (Ok x st1)
    obtain ready wm1 where x: "x = (ready, wm1)" by (cases x) auto
    from Ok r have s1: "step T0 added st st1" by simp
    show ?thesis
    proof (cases "w_delete_intermediates workflow")
      case False
      with Ok x s1 show ?thesis by (simp add: wm_run_ready_tasks_def)
    next
      case True
      have "result_state (wm_run_ready_tasks refs now workflow wm st)
          = result_state (clear_intermediate_tasks workflow wm1 st1)"
        using Ok x True by (cases "clear_intermediate_tasks workflow wm1 st1")
          (simp_all add: wm_run_ready_tasks_def)
      with step_trans_nil2[OF s1 clear_intermediate_tasks_step[OF step_tbl_ok[OF s1], of workflow wm1]]
      show ?thesis by simp
    qed
  qed
  with sub show ?thesis by blast
qed

lemma complete_noops_step:
  assumes "tbl_ok T0 st" "\<forall>t\<in>set ts. snap T0 t"
  shows "step T0 [] st (result_state (complete_noops now ts wm st))"
  using assms
proof (induction ts arbitrary: wm st)
  case Nil
  then show ?case by (simp add: step_refl)
next
  case (Cons t ts)
  show ?case
  proof (cases "t_NOOP t")
    case False
    with Cons.IH[OF Cons.prems(1), of wm] Cons.prems(2) show ?thesis by simp
  next
    case True
    from Cons.prems have sn: "snap T0 t" by simp
    note h = Task_has_finished_step(1)[OF Cons.prems(1) sn, of now None]
    show ?thesis
    proof (cases "Task_has_finished now None t st")
      case (Raise e s)
      with h True show ?thesis by simp
    next
      case (Ok t' st1)
      with h have s1: "step T0 [] st st1" by simp
      show ?thesis
      proof (cases "complete_task t' wm")
        case (Inl e)
        with Ok True s1 show ?thesis by simp
      next
        case (Inr wm1)
        from Cons.IH[OF step_tbl_ok[OF s1], of wm1] Cons.prems(2)
        have "step T0 [] st1 (result_state (complete_noops now ts wm1 st1))" by simp
        from step_trans_nil[OF s1 this] show ?thesis using Ok True Inr by simp
      qed
    qed
  qed
qed

lemma wm_run_ready_tasks_snap:
  assumes ok: "tbl_ok T0 st"
    and r: "wm_run_ready_tasks refs now workflow wm st = Ok (ready, wm') st'"
  shows "\<forall>t\<in>set ready. snap T0 t"
proof
  fix t' assume t': "t' \<in> set ready"
  from r obtain wm1 st1 where
    s: "submit_ready refs now workflow (get_ready_tasks wm st) wm st = Ok (ready, wm1) st1"
    by (auto simp: wm_run_ready_tasks_def split: result.splits prod.splits if_splits)
  from submit_ready_snap[OF s t'] obtain t where t: "t \<in> set (get_ready_tasks wm st)"
    and v: "t_id t' = t_id t \<and> t_NOOP t' = t_NOOP t" by blast
  from get_ready_tasks_ids[OF t] ok have "snap T0 t" by (simp add: tbl_ok_def)
  from snap_variant[OF this] v show "snap T0 t'" by (simp add: variant_def)
qed

lemma subseq_distinct: "subseq xs ys \<Longrightarrow> distinct ys \<Longrightarrow> distinct xs"
  using subseqs_distinctD[of xs ys] by simp

lemma subseq_set: "subseq xs ys \<Longrightarrow> set xs \<subseteq> set ys"
  by (induction rule: list_emb.induct) auto

lemma step_distinct: "step T0 a st st' \<Longrightarrow> distinct (map t_id (tasks st)) \<Longrightarrow> distinct (map t_id (tasks st'))"
  by (simp add: step_def)

lemma run_ready_tasks_step:
  assumes "tbl_ok T0 st" "distinct (map t_id (tasks st))"
  shows "\<exists>added. step T0 added st (result_state (run_ready_tasks refs now self wm st))
     \<and> distinct (map snd added)
     \<and> snd ` set added \<subseteq> set (g_nodes (dag_queue wm)) - set (queued_tasks wm)
     \<and> (\<forall>wm' st'. run_ready_tasks refs now self wm st = Ok wm' st' \<longrightarrow>
          set (g_nodes (dag_queue wm')) \<subseteq> set (g_nodes (dag_queue wm))
        \<and> set (queued_tasks wm) \<union> snd ` set added \<subseteq> set (queued_tasks wm'))"
  using assms
proof (induction refs now self wm st rule: run_ready_tasks.induct)
  case (1 refs now self wm st)
  note ok = "1.prems"(1) and di = "1.prems"(2)
  let ?R = "run_ready_tasks refs now self wm st"
  from wm_run_ready_tasks_step[OF ok, of refs now self wm]
  obtain a1 where w: "step T0 a1 st (result_state (wm_run_ready_tasks refs now self wm st))"
    and sub: "subseq (map snd a1) (map t_id (get_ready_tasks wm st))" by blast
  have d1: "distinct (map snd a1)"
    using subseq_distinct[OF sub get_ready_tasks_distinct[OF di]] .
  have "set (map snd a1) \<subseteq> set (map t_id (get_ready_tasks wm st))"
    using sub by (rule subseq_set)
  then have in0: "snd ` set a1 \<subseteq> t_id ` set (get_ready_tasks wm st)" by simp
  then have in1: "snd ` set a1 \<subseteq> set (g_nodes (dag_queue wm)) - set (queued_tasks wm)"
    using get_ready_tasks_ids[of _ wm st] by auto
  show ?case
  proof (cases "wm_run_ready_tasks refs now self wm st")
    case (Raise e s)
    then have "?R = Raise e s" by (subst run_ready_tasks.simps) simp
    with w Raise d1 in1 show ?thesis by auto
  next
    case (Ok x st1)
    obtain submitted wm1 where x: "x = (submitted, wm1)" by (cases x) auto
    from Ok x have r': "wm_run_ready_tasks refs now self wm st = Ok (submitted, wm1) st1" by simp
    from Ok w have s1: "step T0 a1 st st1" by simp
    note w1 = wm_run_ready_tasks_Ok[OF r']
    note c = complete_noops_step[OF step_tbl_ok[OF s1] wm_run_ready_tasks_snap[OF ok r'], of now wm1]
    show ?thesis
    proof (cases "complete_noops now submitted wm1 st1")
      case (Raise e s)
      with r' have "?R = Raise e s" by (subst run_ready_tasks.simps) simp
      with step_trans_nil2[OF s1 c] Raise d1 in1 show ?thesis by auto
    next
      case cn: (Ok wm2 st2)
      with step_trans_nil2[OF s1 c] have s2: "step T0 a1 st st2" by simp
      note w2 = complete_noops_wm[OF cn]
      have q2: "set (queued_tasks wm) \<union> snd ` set a1 \<subseteq> set (queued_tasks wm2)"
        using w1 w2 in0 by auto
      have n2: "set (g_nodes (dag_queue wm2)) \<subseteq> set (g_nodes (dag_queue wm))"
        using w1 w2 by auto
      show ?thesis
      proof (cases "submitted = []")
        case True
        with r' cn have "?R = Ok wm2 st2" by (subst run_ready_tasks.simps) simp
        with s2 d1 in1 q2 n2 show ?thesis by auto
      next
        case False
        with r' cn have e: "?R = run_ready_tasks refs now self wm2 st2"
          by (subst run_ready_tasks.simps) simp
        from "1.IH"[OF Ok x[symmetric] cn False step_tbl_ok[OF s2] step_distinct[OF s2 di]]
        obtain a2 where r2: "step T0 a2 st2 (result_state (run_ready_tasks refs now self wm2 st2))"
          and d2: "distinct (map snd a2)"
          and in2: "snd ` set a2 \<subseteq> set (g_nodes (dag_queue wm2)) - set (queued_tasks wm2)"
          and post: "\<forall>wm' st'. run_ready_tasks refs now self wm2 st2 = Ok wm' st' \<longrightarrow>
             set (g_nodes (dag_queue wm')) \<subseteq> set (g_nodes (dag_queue wm2))
             \<and> set (queued_tasks wm2) \<union> snd ` set a2 \<subseteq> set (queued_tasks wm')" by blast
        have a: "step T0 (a1 @ a2) st (result_state ?R)" using step_trans[OF s2 r2] e by simp
        have b: "distinct (map snd (a1 @ a2))" using d1 d2 in2 q2 by auto
        have c': "snd ` set (a1 @ a2) \<subseteq> set (g_nodes (dag_queue wm)) - set (queued_tasks wm)"
          using in1 in2 n2 q2 by auto
        have d: "\<forall>wm' st'. ?R = Ok wm' st' \<longrightarrow>
          set (g_nodes (dag_queue wm')) \<subseteq> set (g_nodes (dag_queue wm))
        \<and> set (queued_tasks wm) \<union> snd ` set (a1 @ a2) \<subseteq> set (queued_tasks wm')"
        proof (intro allI impI)
          fix wm' st' assume "?R = Ok wm' st'"
          then have "run_ready_tasks refs now self wm2 st2 = Ok wm' st'" using e by simp
          with post have p: "set (g_nodes (dag_queue wm')) \<subseteq> set (g_nodes (dag_queue wm2))"
            "set (queued_tasks wm2) \<union> snd ` set a2 \<subseteq> set (queued_tasks wm')" by blast+
          show "set (g_nodes (dag_queue wm')) \<subseteq> set (g_nodes (dag_queue wm))
            \<and> set (queued_tasks wm) \<union> snd ` set (a1 @ a2) \<subseteq> set (queued_tasks wm')"
            unfolding set_append image_Un using p n2 q2 by blast
        qed
        from a b c' d show ?thesis by blast
      qed
    qed
  qed
qed

subsection \<open>Counting the attempts of a task\<close>

text \<open>
  \<^verbatim>\<open>jobAttempts_count\<close> is \<^verbatim>\<open>task.jobAttempts.count()\<close>. The invariant of the loop:
  \<^verbatim>\<open>bounded\<close>, no task has more than \<^verbatim>\<open>m\<close> attempts, and \<^verbatim>\<open>fresh\<close>, a task that is still
  a node of \<^verbatim>\<open>dag_queue\<close> and not yet in \<^verbatim>\<open>queued_tasks\<close> has none.
\<close>

definition jobAttempts_count :: "nat \<Rightarrow> State \<Rightarrow> nat" where
  "jobAttempts_count tid st = length (filter (\<lambda>ja. ja_task ja = tid) (job_attempts st))"

definition bounded :: "int \<Rightarrow> State \<Rightarrow> bool" where
  "bounded m st = (\<forall>ja\<in>set (job_attempts st). int (jobAttempts_count (ja_task ja) st) \<le> m)"

definition fresh :: "WorkflowManager \<Rightarrow> State \<Rightarrow> bool" where
  "fresh wm st = (\<forall>ja\<in>set (job_attempts st).
       ja_task ja \<in> set (g_nodes (dag_queue wm)) \<longrightarrow> ja_task ja \<in> set (queued_tasks wm))"

lemma count_keys': "jobAttempts_count tid st = length (filter (\<lambda>k. snd k = tid) (ja_keys st))"
  by (simp add: jobAttempts_count_def count_keys)

lemma keys_tasks: "snd ` set (ja_keys st) = ja_task ` set (job_attempts st)"
  by (force simp: ja_keys_def)

lemma bounded_keys: "bounded m st = (\<forall>tid\<in>snd ` set (ja_keys st).
     int (length (filter (\<lambda>k. snd k = tid) (ja_keys st))) \<le> m)"
  by (simp add: bounded_def count_keys' keys_tasks)

lemma fresh_keys: "fresh wm st = (\<forall>tid\<in>snd ` set (ja_keys st).
     tid \<in> set (g_nodes (dag_queue wm)) \<longrightarrow> tid \<in> set (queued_tasks wm))"
  by (simp add: fresh_def keys_tasks)

lemma distinct_count_le1: "distinct (map snd a) \<Longrightarrow> length (filter (\<lambda>k. snd k = tid) a) \<le> Suc 0"
proof (induction a)
  case Nil
  then show ?case by simp
next
  case (Cons k a)
  show ?case
  proof (cases "snd k = tid")
    case True
    with Cons.prems have "tid \<notin> snd ` set a" by auto
    then have "filter (\<lambda>k. snd k = tid) a = []" by (auto simp: filter_empty_conv)
    with True show ?thesis by simp
  next
    case False
    with Cons show ?thesis by simp
  qed
qed

lemma notin_count0: "tid \<notin> snd ` set a \<Longrightarrow> filter (\<lambda>k. snd k = tid) a = []"
  by (auto simp: filter_empty_conv)

lemma bounded_fresh_add:
  assumes m: "1 \<le> m" and b: "bounded m st" and k: "ja_keys st' = ja_keys st @ a"
    and d: "distinct (map snd a)" and f: "snd ` set a \<inter> snd ` set (ja_keys st) = {}"
  shows "bounded m st'"
  unfolding bounded_keys k
proof
  fix tid assume t: "tid \<in> snd ` set (ja_keys st @ a)"
  show "int (length (filter (\<lambda>k. snd k = tid) (ja_keys st @ a))) \<le> m"
  proof (cases "tid \<in> snd ` set a")
    case True
    with f have "tid \<notin> snd ` set (ja_keys st)" by auto
    from notin_count0[OF this] distinct_count_le1[OF d, of tid] m show ?thesis by simp
  next
    case False
    with t have "tid \<in> snd ` set (ja_keys st)" by auto
    with b[unfolded bounded_keys] have "int (length (filter (\<lambda>k. snd k = tid) (ja_keys st))) \<le> m"
      by blast
    with notin_count0[OF False] show ?thesis by simp
  qed
qed

lemma bounded_retry_add:
  assumes b: "bounded m st" and k: "ja_keys st' = ja_keys st @ a"
    and a: "a = [] \<or> ((\<exists>j. a = [(j, t)]) \<and> int (length (filter (\<lambda>k. snd k = t) (ja_keys st))) < m)"
  shows "bounded m st'"
  unfolding bounded_keys k
proof
  fix tid assume t: "tid \<in> snd ` set (ja_keys st @ a)"
  show "int (length (filter (\<lambda>k. snd k = tid) (ja_keys st @ a))) \<le> m"
  proof (cases "tid \<in> snd ` set (ja_keys st)")
    case True
    with b[unfolded bounded_keys] have "int (length (filter (\<lambda>k. snd k = tid) (ja_keys st))) \<le> m"
      by blast
    with a show ?thesis by auto
  next
    case False
    from notin_count0[OF this] a t False show ?thesis by auto
  qed
qed

definition inv1 :: "int \<Rightarrow> WorkflowManager \<Rightarrow> State \<Rightarrow> bool" where
  "inv1 m wm st = (1 \<le> m \<and> bounded m st \<and> fresh wm st)"

definition eff :: "Task list \<Rightarrow> int \<Rightarrow> WorkflowManager \<Rightarrow> State \<Rightarrow> State \<Rightarrow> bool" where
  "eff T0 m wm st st' = ((\<exists>a. step T0 a st st') \<and> (inv1 m wm st \<longrightarrow> bounded m st'))"

definition eff2 :: "Task list \<Rightarrow> int \<Rightarrow> WorkflowManager \<Rightarrow> State \<Rightarrow> WorkflowManager \<Rightarrow> State \<Rightarrow> bool" where
  "eff2 T0 m wm st wm' st' = ((\<exists>a. step T0 a st st') \<and> (inv1 m wm st \<longrightarrow> inv1 m wm' st'))"

lemma eff2_eff: "eff2 T0 m wm st wm' st' \<Longrightarrow> eff T0 m wm' st' out \<Longrightarrow> eff T0 m wm st out"
  unfolding eff_def eff2_def using step_trans by blast

lemma eff2_trans: "eff2 T0 m wm st wm1 st1 \<Longrightarrow> eff2 T0 m wm1 st1 wm2 st2 \<Longrightarrow> eff2 T0 m wm st wm2 st2"
  unfolding eff2_def using step_trans by blast

lemma eff2_final: "eff2 T0 m wm st wm' st' \<Longrightarrow> eff T0 m wm st st'"
  by (auto simp: eff_def eff2_def inv1_def)

lemma eff2_tbl_ok: "eff2 T0 m wm st wm' st' \<Longrightarrow> tbl_ok T0 st'"
  by (auto simp: eff2_def step_def)

lemma eff2_distinct:
  "eff2 T0 m wm st wm' st' \<Longrightarrow> distinct (map t_id (tasks st)) \<Longrightarrow> distinct (map t_id (tasks st'))"
  by (auto simp: eff2_def step_def)

lemma step_nil_eff2:
  assumes s: "step T0 [] st st'"
  shows "eff2 T0 m wm st wm st'"
proof -
  from s have "ja_keys st' = ja_keys st" by (simp add: step_def)
  then have "inv1 m wm st \<longrightarrow> inv1 m wm st'" by (simp add: inv1_def bounded_keys fresh_keys)
  with s show ?thesis unfolding eff2_def by blast
qed

lemma mark_completed_step:
  assumes ok: "tbl_ok T0 st"
  shows "step T0 [] st (mark_completed jm jid b now st)"
proof -
  have "ja_keys (mark_completed jm jid b now st) = ja_keys st"
    by (simp add: ja_keys_def mark_completed_def comp_def if_distrib cong: if_cong)
  with ok show ?thesis by (simp add: step_def tbl_ok_def mark_completed_def)
qed

lemma terminate_step:
  assumes ok: "tbl_ok T0 st"
  shows "step T0 [] st (snd (snd (terminate n1 n2 n3 n4 self st)))"
proof (cases "w_jobManager self")
  case None
  then show ?thesis using step_same[OF ok same_core_save_workflow[of st self]]
    by (simp add: terminate_def Let_def)
next
  case (Some jm)
  let ?st1 = "save_workflow self st"
  let ?st2 = "fold terminate_jobAttempt (queued_jobAttempts jm ?st1) ?st1"
  let ?st3 = "update_terminated_tasks n1 jm ?st2"
  let ?st4 = "update_terminated_stages n2 jm ?st3"
  let ?st5 = "update_terminated_jobAttempts n3 jm ?st4"
  let ?st6 = "snd (finished n4 self ?st5)"
  have e: "snd (snd (terminate n1 n2 n3 n4 self st)) = ?st6"
    using Some by (simp add: terminate_def Let_def split_beta)
  have t: "tasks ?st6 = map (\<lambda>t. if t_id t \<in> set (map ja_task (queued_jobAttempts jm ?st2))
                           then t\<lparr>t_status := Failed, t_finished_on := Some n1\<rparr> else t) (tasks st)"
    by (simp add: finished_def Let_def save_workflow_def update_terminated_jobAttempts_def
        update_terminated_stages_def update_terminated_tasks_def fold_terminate_jobAttempt)
  have k: "ja_keys ?st6 = ja_keys st"
    by (simp add: ja_keys_def finished_def Let_def save_workflow_def update_terminated_jobAttempts_def
        update_terminated_stages_def update_terminated_tasks_def fold_terminate_jobAttempt
        comp_def if_distrib cong: if_cong)
  have d: "drm_submitted ?st6 = drm_submitted st"
    by (simp add: finished_def Let_def save_workflow_def update_terminated_jobAttempts_def
        update_terminated_stages_def update_terminated_tasks_def fold_terminate_jobAttempt)
  have ids: "map t_id (tasks ?st6) = map t_id (tasks st)"
    unfolding t by (simp add: comp_def if_distrib cong: if_cong)
  have tb: "tbl_ok T0 ?st6"
    unfolding tbl_ok_def t
  proof
    fix r assume "r \<in> set (map (\<lambda>t. if t_id t \<in> set (map ja_task (queued_jobAttempts jm ?st2))
                           then t\<lparr>t_status := Failed, t_finished_on := Some n1\<rparr> else t) (tasks st))"
    then obtain t0 where t0: "t0 \<in> set (tasks st)"
      and r: "r = t0 \<or> r = t0\<lparr>t_status := Failed, t_finished_on := Some n1\<rparr>" by auto
    from ok t0 have "snap T0 t0" by (simp add: tbl_ok_def)
    from snap_variant[OF this, of r] r show "snap T0 r" by (auto simp: variant_def)
  qed
  show ?thesis unfolding e using tb k d ids by (simp add: step_def)
qed

lemma reattempt_task_max:
  "reattempt_task refs now self task st = Ok (r, self1) st1 \<Longrightarrow>
     w_max_reattempts self1 = w_max_reattempts self"
  by (auto simp: reattempt_task_def Let_def split: if_splits result.splits)

lemma run_ready_tasks_eff:
  assumes ok: "tbl_ok T0 st" and di: "distinct (map t_id (tasks st))"
  shows "eff T0 m wm st (result_state (run_ready_tasks refs now self wm st))"
    and "run_ready_tasks refs now self wm st = Ok wm' st' \<Longrightarrow> eff2 T0 m wm st wm' st'"
proof -
  let ?R = "run_ready_tasks refs now self wm st"
  from run_ready_tasks_step[OF ok di, where refs=refs and now=now and self=self and wm=wm]
  obtain a where s: "step T0 a st (result_state ?R)"
    and d: "distinct (map snd a)"
    and sub: "snd ` set a \<subseteq> set (g_nodes (dag_queue wm)) - set (queued_tasks wm)"
    and post: "\<forall>wm' st'. ?R = Ok wm' st' \<longrightarrow>
          set (g_nodes (dag_queue wm')) \<subseteq> set (g_nodes (dag_queue wm))
        \<and> set (queued_tasks wm) \<union> snd ` set a \<subseteq> set (queued_tasks wm')" by blast
  from s have k: "ja_keys (result_state ?R) = ja_keys st @ a" by (simp add: step_def)
  have b: "bounded m (result_state ?R)" if i: "inv1 m wm st"
  proof -
    from i have "snd ` set a \<inter> snd ` set (ja_keys st) = {}"
      using sub unfolding inv1_def fresh_keys by blast
    from bounded_fresh_add[OF _ _ k d this] i show ?thesis by (simp add: inv1_def)
  qed
  with s show "eff T0 m wm st (result_state ?R)" unfolding eff_def by blast
  assume r: "?R = Ok wm' st'"
  with post have p: "set (g_nodes (dag_queue wm')) \<subseteq> set (g_nodes (dag_queue wm))"
    "set (queued_tasks wm) \<union> snd ` set a \<subseteq> set (queued_tasks wm')" by blast+
  from r s k have s': "step T0 a st st'" and k': "ja_keys st' = ja_keys st @ a" by simp_all
  have "inv1 m wm' st'" if i: "inv1 m wm st"
  proof -
    from b[OF i] r have "bounded m st'" by simp
    moreover have "fresh wm' st'"
      using i p unfolding inv1_def fresh_keys k' set_append image_Un by blast
    ultimately show ?thesis using i by (simp add: inv1_def)
  qed
  with s' show "eff2 T0 m wm st wm' st'" unfolding eff2_def by blast
qed

lemma complete_task_eff2:
  assumes c: "complete_task task wm = Inr wm1" and ok: "tbl_ok T0 st"
  shows "eff2 T0 m wm st wm1 st"
proof -
  from complete_task_wm[OF c]
  have "set (g_nodes (dag_queue wm1)) \<subseteq> set (g_nodes (dag_queue wm))"
    "queued_tasks wm1 = queued_tasks wm" by auto
  then have "inv1 m wm st \<longrightarrow> inv1 m wm1 st" unfolding inv1_def fresh_keys by auto
  with step_refl[OF ok] show ?thesis unfolding eff2_def by blast
qed

lemma reattempt_task_eff2:
  assumes ok: "tbl_ok T0 st" and sn: "snap T0 task"
    and has: "t_id task \<in> ja_task ` set (job_attempts st)"
  shows "eff2 T0 (w_max_reattempts self) wm st wm (result_state (reattempt_task refs now self task st))"
proof -
  let ?st' = "result_state (reattempt_task refs now self task st)"
  let ?m = "w_max_reattempts self"
  from reattempt_task_step[OF ok sn, where refs=refs and now=now and self=self]
  obtain a where s: "step T0 a st ?st'"
    and a: "a = [] \<or> ((\<exists>j. a = [(j, t_id task)])
                \<and> int (length (filter (\<lambda>k. snd k = t_id task) (ja_keys st))) < ?m)" by blast
  from s have k: "ja_keys ?st' = ja_keys st @ a" by (simp add: step_def)
  have "inv1 ?m wm ?st'" if i: "inv1 ?m wm st"
  proof -
    from i have "bounded ?m st" by (simp add: inv1_def)
    from bounded_retry_add[OF this k a] have b: "bounded ?m ?st'" .
    from a has have "snd ` set a \<subseteq> snd ` set (ja_keys st)" by (auto simp: keys_tasks)
    with i have "fresh wm ?st'" unfolding inv1_def fresh_keys k set_append image_Un by blast
    with b i show ?thesis by (simp add: inv1_def)
  qed
  with s show ?thesis unfolding eff2_def by blast
qed

lemma find_Some_set: "find P xs = Some x \<Longrightarrow> x \<in> set xs \<and> P x"
  by (auto simp: find_Some_iff)

lemma loop_body_eff:
  assumes ok: "tbl_ok T0 st"
    and di: "distinct (map t_id (tasks st))"
    and has: "ja_task jobAttempt \<in> ja_task ` set (job_attempts st)"
  shows "eff T0 (w_max_reattempts self) wm st (result_state (loop_body refs tof now jobAttempt self wm st))"
    and "loop_body refs tof now jobAttempt self wm st = Ok (self1, wm1) st1 \<Longrightarrow>
           eff2 T0 (w_max_reattempts self) wm st wm1 st1 \<and> w_max_reattempts self1 = w_max_reattempts self"
proof -
  let ?m = "w_max_reattempts self"
  let ?L = "loop_body refs tof now jobAttempt self wm st"
  have "eff T0 ?m wm st (result_state ?L)
      \<and> (\<forall>self1 wm1 st1. ?L = Ok (self1, wm1) st1 \<longrightarrow>
           eff2 T0 ?m wm st wm1 st1 \<and> w_max_reattempts self1 = ?m)"
  proof (cases "find (\<lambda>x. t_id x = ja_task jobAttempt) (tasks st)")
    case None
    then have "?L = Raise DoesNotExist st" by (simp add: loop_body_def)
    with eff2_final[OF step_nil_eff2[OF step_refl[OF ok]]] show ?thesis by simp
  next
    case (Some task)
    from find_Some_set[OF Some] have tin: "task \<in> set (tasks st)" and tid: "t_id task = ja_task jobAttempt"
      by simp_all
    from ok tin have sn: "snap T0 task" by (simp add: tbl_ok_def)
    show ?thesis
    proof (cases "ja_successful jobAttempt \<or> t_succeed_on_failure task")
      case True
      note h = Task_has_finished_step[OF ok sn, where now=now and ja="Some jobAttempt"]
      show ?thesis
      proof (cases "Task_has_finished now (Some jobAttempt) task st")
        case (Raise e s)
        with Some True have "?L = Raise e s" by (simp add: loop_body_def)
        with eff2_final[OF step_nil_eff2[OF h(1)]] Raise show ?thesis by simp
      next
        case (Ok task' st1')
        with h(1) have e1: "eff2 T0 ?m wm st wm st1'" using step_nil_eff2 by simp
        show ?thesis
        proof (cases "complete_task task' wm")
          case (Inl e)
          with Some True Ok have "?L = Raise e st1'" by (simp add: loop_body_def)
          with eff2_final[OF e1] show ?thesis by simp
        next
          case (Inr wm1')
          from eff2_trans[OF e1 complete_task_eff2[OF Inr eff2_tbl_ok[OF e1]]]
          have e2: "eff2 T0 ?m wm st wm1' st1'" .
          note r = run_ready_tasks_eff[OF eff2_tbl_ok[OF e2] eff2_distinct[OF e2 di],
              where wm=wm1' and refs=refs and now=now and self=self]
          show ?thesis
          proof (cases "run_ready_tasks refs now self wm1' st1'")
            case (Raise e s)
            with Some True Ok Inr have "?L = Raise e s" by (simp add: loop_body_def)
            with eff2_eff[OF e2 r(1)] Raise show ?thesis by simp
          next
            case rk: (Ok wm2 st2)
            with Some True Ok Inr have l: "?L = Ok (self, wm2) st2" by (simp add: loop_body_def)
            from eff2_trans[OF e2 r(2)[OF rk]] have "eff2 T0 ?m wm st wm2 st2" .
            with l eff2_final[OF this] show ?thesis by simp
          qed
        qed
      qed
    next
      case False
      from has tid have has': "t_id task \<in> ja_task ` set (job_attempts st)" by simp
      note ra = reattempt_task_eff2[OF ok sn has', where self=self and wm=wm and refs=refs and now=now]
      show ?thesis
      proof (cases "reattempt_task refs now self task st")
        case (Raise e s)
        with Some False have "?L = Raise e s" by (simp add: loop_body_def)
        with eff2_final[OF ra] Raise show ?thesis by simp
      next
        case (Ok x st1')
        obtain r self1' where x: "x = (r, self1')" by (cases x) auto
        from Ok x have rk: "reattempt_task refs now self task st = Ok (r, self1') st1'" by simp
        from ra rk have e1: "eff2 T0 ?m wm st wm st1'" by simp
        note mx = reattempt_task_max[OF rk]
        show ?thesis
        proof (cases "r = Some True")
          case True
          with Some False rk have "?L = Ok (self1', wm) st1'" by (simp add: loop_body_def)
          with e1 eff2_final[OF e1] mx show ?thesis by simp
        next
          case nt: False
          note h = Task_has_finished_step(1)[OF eff2_tbl_ok[OF e1] sn, where now=now and ja="Some jobAttempt"]
          from eff2_trans[OF e1 step_nil_eff2[OF h]]
          have e2: "eff2 T0 ?m wm st wm (result_state (Task_has_finished now (Some jobAttempt) task st1'))" .
          show ?thesis
          proof (cases "Task_has_finished now (Some jobAttempt) task st1'")
            case (Raise e s)
            with Some False rk nt have "?L = Raise e s" by (simp add: loop_body_def)
            with eff2_final[OF e2] Raise show ?thesis by simp
          next
            case hk: (Ok t' st2)
            with e2 have e2': "eff2 T0 ?m wm st wm st2" by simp
            show ?thesis
            proof (cases tof)
              case True
              with Some False rk nt hk
              have "result_state ?L = snd (snd (terminate now now now now self1' st2))"
                and "\<forall>a b c. ?L \<noteq> Ok (a, b) c"
                by (simp_all add: loop_body_def split_beta)
              with eff2_final[OF eff2_trans[OF e2' step_nil_eff2[OF terminate_step[OF eff2_tbl_ok[OF e2']]]]]
              show ?thesis by simp
            next
              case ntf: False
              with Some False rk nt hk have "?L = Ok (self1', wm) st2" by (simp add: loop_body_def)
              with e2' eff2_final[OF e2'] mx show ?thesis by simp
            qed
          qed
        qed
      qed
    qed
  qed
  then show "eff T0 ?m wm st (result_state ?L)"
    and "?L = Ok (self1, wm1) st1 \<Longrightarrow> eff2 T0 ?m wm st wm1 st1 \<and> w_max_reattempts self1 = ?m"
    by blast+
qed

lemma after_loop_eff:
  assumes ok: "tbl_ok T0 st"
  shows "eff T0 m wm st (outcome_state (after_loop fin now self wm st))"
proof -
  have "same_core st (outcome_state (after_loop fin now self wm st))"
    using same_core_finished[of st now self] by (simp add: after_loop_def split_beta)
  from eff2_final[OF step_nil_eff2[OF step_same[OF ok this]]] show ?thesis .
qed

lemma run_loop_eff:
  assumes "tbl_ok T0 st" "distinct (map t_id (tasks st))"
  shows "eff T0 (w_max_reattempts self) wm st
           (outcome_state (run_loop refs tof fin jm now evs self wm st))"
  using assms
proof (induction evs arbitrary: now self wm st)
  case Nil
  show ?case
  proof (cases "queued_jobAttempts jm st = []")
    case True
    with after_loop_eff[OF Nil.prems(1)] show ?thesis by simp
  next
    case False
    with eff2_final[OF step_nil_eff2[OF step_refl[OF Nil.prems(1)]]] show ?thesis by simp
  qed
next
  case (Cons ev evs)
  note ok = Cons.prems(1) and di = Cons.prems(2)
  let ?m = "w_max_reattempts self"
  show ?case
  proof (cases "queued_jobAttempts jm st = []")
    case True
    with after_loop_eff[OF ok] show ?thesis by simp
  next
    case q: False
    show ?thesis
    proof (cases "find (\<lambda>ja. ja_id ja = fst (snd ev)) (queued_jobAttempts jm st)")
      case None
      with q Cons.IH[OF ok di] show ?thesis by simp
    next
      case (Some ja)
      let ?t = "fst ev"
      let ?ja = "ja\<lparr>ja_queue_status := Completed, ja_successful := snd (snd ev),
                      ja_finished_on := Some ?t\<rparr>"
      let ?st1 = "mark_completed jm (ja_id ja) (snd (snd ev)) ?t st"
      let ?L = "loop_body refs tof ?t ?ja self wm ?st1"
      have s1: "step T0 [] st ?st1" by (rule mark_completed_step[OF ok])
      note e1 = step_nil_eff2[OF s1, of ?m wm]
      from find_Some_set[OF Some] have "ja \<in> set (job_attempts st)"
        by (simp add: queued_jobAttempts_def)
      then have "ja_task ?ja \<in> snd ` set (ja_keys st)" by (simp add: keys_tasks)
      moreover from s1 have "ja_keys ?st1 = ja_keys st" by (simp add: step_def)
      ultimately have has: "ja_task ?ja \<in> ja_task ` set (job_attempts ?st1)"
        by (simp add: keys_tasks[symmetric])
      note lb = loop_body_eff[OF step_tbl_ok[OF s1] step_distinct[OF s1 di] has,
          where wm=wm and refs=refs and tof=tof and now="?t"]
      have unf: "run_loop refs tof fin jm now (ev # evs) self wm st =
         (case ?L of Raise e s \<Rightarrow> Raised e s
          | Ok (self1, wm1) st2 \<Rightarrow> run_loop refs tof fin jm ?t evs self1 wm1 st2)"
        using q Some by (simp add: Let_def)
      show ?thesis
      proof (cases ?L)
        case (Raise e s)
        show ?thesis unfolding unf using eff2_eff[OF e1 lb(1)] Raise by simp
      next
        case (Ok x st2)
        obtain self1 wm1 where x: "x = (self1, wm1)" by (cases x) auto
        from Ok x have lk: "?L = Ok (self1, wm1) st2" by simp
        from lb(2)[OF lk] have e2: "eff2 T0 ?m wm ?st1 wm1 st2" and mx: "w_max_reattempts self1 = ?m"
          by simp_all
        note e3 = eff2_trans[OF e1 e2]
        from Cons.IH[of st2 self1 wm1 ?t] mx eff2_tbl_ok[OF e3] eff2_distinct[OF e3 di]
        have "eff T0 ?m wm1 st2 (outcome_state (run_loop refs tof fin jm ?t evs self1 wm1 st2))"
          by simp
        from eff2_eff[OF e3 this] show ?thesis unfolding unf using lk by simp
      qed
    qed
  qed
qed

lemma run_eff:
  assumes di: "distinct (map t_id (tasks st))"
  shows "eff (tasks st) (w_max_reattempts self) (WorkflowManager_init self st) st
           (outcome_state (run refs tof fin now events self st))"
proof -
  let ?wm = "WorkflowManager_init self st"
  let ?m = "w_max_reattempts self"
  note r = run_ready_tasks_eff[OF tbl_ok_init di, where wm="?wm" and refs=refs and now=now and self=self]
  show ?thesis
  proof (cases "run_ready_tasks refs now self ?wm st")
    case (Raise e s)
    with r(1) show ?thesis by (simp add: run_def)
  next
    case (Ok wm1 st1)
    note e1 = r(2)[OF Ok]
    show ?thesis
    proof (cases "w_jobManager self")
      case None
      with Ok eff2_final[OF e1] show ?thesis by (simp add: run_def)
    next
      case (Some jm)
      from eff2_eff[OF e1 run_loop_eff[OF eff2_tbl_ok[OF e1] eff2_distinct[OF e1 di]]]
      show ?thesis using Ok Some by (simp add: run_def)
    qed
  qed
qed

subsection \<open>A workflow of one NOOP task\<close>

lemma nodes_single:
  assumes "tasks st = [task]" "stages st = [stage]" "t_stage task = s_id stage"
    "s_workflow stage = w_id self" "task_edges st = []"
  shows "g_nodes (dag (WorkflowManager_init self st)) = [t_id task]"
    and "g_edges (dag (WorkflowManager_init self st)) = []"
    and "g_nodes (dag_queue (WorkflowManager_init self st)) = (if t_successful task then [] else [t_id task])"
    and "g_edges (dag_queue (WorkflowManager_init self st)) = []"
    and "queued_tasks (WorkflowManager_init self st) = []"
    and "na_cleared_output_files (g_node (dag (WorkflowManager_init self st)) (t_id task)) = Some (t_cleared_output_files task)"
  using assms
  by (simp_all add: WorkflowManager_init_def createDiGraph_def Workflow_task_edges_def
  Workflow_tasks_def Workflow_stages_def Stage_tasks_def add_edges_from_def add_edge_def
  touch_node_def add_node_def remove_nodes_from_def drop_node_def empty_DiGraph_def no_attrs_def
  Let_def)

lemma clear_single:
  assumes "g_nodes (dag wm) = [tid]" "g_edges (dag wm) = []"
    "na_cleared_output_files (g_node (dag wm) tid) = Some c"
  shows "clear_intermediate_tasks w wm st = Ok wm st"
  using assms
  by (simp add: clear_intermediate_tasks_def node_attr_def is_task_intermediate_def
      successors_def predecessors_def)

lemma run_ready_tasks_empty:
  assumes q: "g_nodes (dag_queue wm) = []"
    and c: "w_delete_intermediates self \<longrightarrow> clear_intermediate_tasks self wm st = Ok wm st"
  shows "run_ready_tasks refs now self wm st = Ok wm st"
proof -
  from q have g: "get_ready_tasks wm st = []"
    by (simp add: get_ready_tasks_def in_degree_def)
  with c have "wm_run_ready_tasks refs now self wm st = Ok ([], wm) st"
    by (simp add: wm_run_ready_tasks_def)
  then show ?thesis by (subst run_ready_tasks.simps) simp
qed

lemma run_loop_no_attempts:
  "job_attempts st = [] \<Longrightarrow>
     run_loop refs tof fin jm now evs self wm st = after_loop fin now self wm st"
  by (cases evs) (simp_all add: queued_jobAttempts_def)

lemma after_loop_Returned:
  "\<exists>self' st'. after_loop fin now self wm st = Returned self' wm st'
      \<and> job_attempts st' = job_attempts st \<and> drm_submitted st' = drm_submitted st
      \<and> tasks st' = tasks st"
  by (simp add: after_loop_def finished_def Let_def save_workflow_def)

lemma single_noop_returns:
  assumes t: "tasks st = [task]" and noop: "t_NOOP task" and s: "stages st = [stage]"
    and ts: "t_stage task = s_id stage" and sw: "s_workflow stage = w_id self"
    and e: "task_edges st = []" and j: "job_attempts st = []" and jm: "w_jobManager self = Some jm"
  shows "\<exists>self' wm' st'. run refs tof fin now events self st = Returned self' wm' st'
      \<and> job_attempts st' = [] \<and> drm_submitted st' = drm_submitted st
      \<and> g_nodes (dag_queue wm') = []
      \<and> (\<not> t_successful task \<longrightarrow>
            tasks st' = [task\<lparr>t_status := Successful, t_successful := True\<rparr>]
          \<and> queued_tasks wm' = [t_id task])"
proof -
  let ?wm = "WorkflowManager_init self st"
  let ?task1 = "task\<lparr>t_status := Successful, t_successful := True\<rparr>"
  note N = nodes_single[OF t s ts sw e]
  have "\<exists>wm' st'. run_ready_tasks refs now self ?wm st = Ok wm' st'
          \<and> job_attempts st' = [] \<and> drm_submitted st' = drm_submitted st
          \<and> g_nodes (dag_queue wm') = []
          \<and> (\<not> t_successful task \<longrightarrow> tasks st' = [?task1] \<and> queued_tasks wm' = [t_id task])"
  proof (cases "t_successful task")
    case True
    have "run_ready_tasks refs now self ?wm st = Ok ?wm st"
      using N True by (intro run_ready_tasks_empty impI clear_single[where tid="t_id task"]) simp_all
    with j N True show ?thesis by simp
  next
    case False
    have g: "get_ready_tasks ?wm st = [task]"
      using N False t by (simp add: get_ready_tasks_def in_degree_def in_degree_of_def)
    let ?wm1 = "queue_task task ?wm"
    have sr: "submit_ready refs now self [task] ?wm st = Ok ([task], ?wm1) st"
      using noop by (simp add: run_task_def)
    have c1: "clear_intermediate_tasks self ?wm1 st = Ok ?wm1 st"
      using N by (intro clear_single[where tid="t_id task"]) (simp_all add: queue_task_def)
    have w: "wm_run_ready_tasks refs now self ?wm st = Ok ([task], ?wm1) st"
      using g sr c1 by (simp add: wm_run_ready_tasks_def)
    let ?st1 = "save_task ?task1 st"
    have t1: "tasks ?st1 = [?task1]" using t by (simp add: save_task_def upsert_def)
    have ad: "are_all_tasks_done stage ?st1"
      using t1 ts by (simp add: are_all_tasks_done_def Stage_tasks_def)
    obtain st2 where sh: "Stage_has_finished now stage ?st1 = Ok () st2"
      and sc: "same_core ?st1 st2"
      using t1 ts same_core_Stage_has_finished[of ?st1 now stage]
      by (cases "Stage_has_finished now stage ?st1")
         (auto simp add: Stage_has_finished_def Stage_tasks_def Let_def split_beta)
    let ?task2 = "?task1\<lparr>t_finished_on := Some now\<rparr>"
    have st1s: "stages ?st1 = [stage]" using s by (simp add: save_task_def)
    have hf: "Task_has_finished now None task st = Ok ?task2 st2"
      using st1s ad sh ts by (simp add: Task_has_finished_def Task_set_status_def Let_def)
    obtain wm2 where ct: "complete_task ?task2 ?wm1 = Inr wm2"
      and q2: "g_nodes (dag_queue wm2) = []"
      and qt: "queued_tasks wm2 = [t_id task]"
      and d2: "g_nodes (dag wm2) = [t_id task]" "g_edges (dag wm2) = []"
        "na_cleared_output_files (g_node (dag wm2) (t_id task)) = Some (t_cleared_output_files task)"
      using N False
      by (simp add: complete_task_def remove_node_def queue_task_def drop_node_def)
    have cn: "complete_noops now [task] ?wm1 st = Ok wm2 st2"
      using noop hf ct by simp
    have r2: "run_ready_tasks refs now self wm2 st2 = Ok wm2 st2"
      using q2 d2 by (intro run_ready_tasks_empty impI clear_single[where tid="t_id task"]) simp_all
    have "run_ready_tasks refs now self ?wm st = Ok wm2 st2"
      using w cn r2 by (subst run_ready_tasks.simps) simp
    moreover from sc j t1 have "job_attempts st2 = [] \<and> drm_submitted st2 = drm_submitted st
        \<and> tasks st2 = [?task1]"
      by (simp add: same_core_def save_task_def)
    ultimately show ?thesis using q2 qt by blast
  qed
  then obtain wm' st' where r: "run_ready_tasks refs now self ?wm st = Ok wm' st'"
    and j': "job_attempts st' = []" and d': "drm_submitted st' = drm_submitted st"
    and n': "g_nodes (dag_queue wm') = []"
    and k': "\<not> t_successful task \<longrightarrow> tasks st' = [?task1] \<and> queued_tasks wm' = [t_id task]"
    by blast
  have "run refs tof fin now events self st = after_loop fin now self wm' st'"
    using r jm run_loop_no_attempts[OF j'] by (simp add: run_def)
  with after_loop_Returned[of fin now self wm' st'] j' d' n' k' show ?thesis by auto
qed

subsection \<open>What a run does to the NOOP tasks it dispatches\<close>

text \<open>
  \<^verbatim>\<open>marked D st\<close>: every Task row with an id in \<^verbatim>\<open>D\<close> is successful.
  \<^verbatim>\<open>queued_noops\<close> are the ids in \<^verbatim>\<open>queued_tasks\<close> of tasks that are \<^verbatim>\<open>NOOP\<close> in the
  Task table \<^verbatim>\<open>T0\<close> at the start of the run; \<^verbatim>\<open>noops_done\<close> is the invariant that their
  rows are successful and their nodes removed from \<^verbatim>\<open>dag_queue\<close>. Within a scheduling pass
  it is broken between \<^verbatim>\<open>queue_task\<close> and the loop over the submitted tasks, and holds
  again when the pass ends.
\<close>

definition noop_id :: "Task list \<Rightarrow> nat \<Rightarrow> bool" where
  "noop_id T0 tid = (\<exists>r\<in>set T0. t_id r = tid \<and> t_NOOP r)"

definition marked :: "nat set \<Rightarrow> State \<Rightarrow> bool" where
  "marked D st = (\<forall>t\<in>set (tasks st). t_id t \<in> D \<longrightarrow> t_status t = Successful \<and> t_successful t)"

lemma snap_noop: "snap T0 t \<Longrightarrow> t_NOOP t \<Longrightarrow> noop_id T0 (t_id t)"
  by (auto simp: snap_def variant_def noop_id_def)

lemma noop_id_NOOP:
  assumes d: "distinct (map t_id T0)" and s: "snap T0 t" and n: "noop_id T0 (t_id t)"
  shows "t_NOOP t"
proof -
  from s obtain r where r: "r \<in> set T0" "t_id t = t_id r" "t_NOOP t = t_NOOP r"
    by (auto simp: snap_def variant_def)
  from n obtain r' where r': "r' \<in> set T0" "t_id r' = t_id t" "t_NOOP r'"
    by (auto simp: noop_id_def)
  from distinct_key_eq[OF d r(1) r'(1)] r r' have "r = r'" by simp
  with r r' show ?thesis by simp
qed

lemma noop_id_not_nonnoop:
  assumes d: "distinct (map t_id T0)" and n: "noop_id T0 tid"
  shows "\<not> nonnoop T0 tid"
proof
  assume "nonnoop T0 tid"
  then obtain r where r: "r \<in> set T0" "t_id r = tid" "\<not> t_NOOP r" by (auto simp: nonnoop_def)
  from n obtain r' where r': "r' \<in> set T0" "t_id r' = tid" "t_NOOP r'"
    by (auto simp: noop_id_def)
  from distinct_key_eq[OF d r(1) r'(1)] r r' have "r = r'" by simp
  with r r' show False by simp
qed

lemma marked_tasks_eq: "tasks st' = tasks st \<Longrightarrow> marked D st \<Longrightarrow> marked D st'"
  by (simp add: marked_def)

lemma marked_same: "same_core st st' \<Longrightarrow> marked D st \<Longrightarrow> marked D st'"
  by (simp add: marked_def same_core_def)

lemma marked_upsert:
  assumes "marked D st" "t_id t \<in> D \<longrightarrow> t_status t = Successful \<and> t_successful t"
    and "tasks st' = upsert t_id t (tasks st)"
  shows "marked D st'"
  using assms set_upsert_subset[of t_id t "tasks st"] by (auto simp: marked_def)

lemma marked_save:
  "marked D st \<Longrightarrow> t_id t \<in> D \<longrightarrow> t_status t = Successful \<and> t_successful t \<Longrightarrow>
     marked D (save_task t st)"
  by (rule marked_upsert[where t=t]) (simp_all add: save_task_def)

lemma marked_upsert_insert:
  assumes m: "marked D st" and s: "t_status t = Successful \<and> t_successful t"
    and u: "tasks st' = upsert t_id t (tasks st)"
  shows "marked (insert (t_id t) D) st'"
  unfolding marked_def u
proof (intro ballI impI)
  fix x assume x: "x \<in> set (upsert t_id t (tasks st))" and i: "t_id x \<in> insert (t_id t) D"
  show "t_status x = Successful \<and> t_successful x"
  proof (cases "t_id x = t_id t")
    case True
    from upsert_same_key[OF x True] s show ?thesis by simp
  next
    case False
    with x set_upsert_subset[of t_id t "tasks st"] have "x \<in> set (tasks st)" by auto
    with m i False show ?thesis by (auto simp: marked_def)
  qed
qed

lemma Task_has_finished_noop:
  assumes r: "Task_has_finished now None task st = Ok t' st'"
  shows "t' = task\<lparr>t_status := Successful, t_successful := True, t_finished_on := Some now\<rparr>"
    and "tasks st' = upsert t_id (task\<lparr>t_status := Successful, t_successful := True\<rparr>) (tasks st)"
proof -
  let ?t1 = "task\<lparr>t_status := Successful, t_successful := True\<rparr>"
  let ?st1 = "save_task ?t1 st"
  have ts: "Task_set_status Successful task st = (?t1, ?st1)"
    by (simp add: Task_set_status_def Let_def)
  have unf: "Task_has_finished now None task st =
      (case find (\<lambda>s. s_id s = t_stage task) (stages ?st1) of
           None \<Rightarrow> Raise DoesNotExist ?st1
         | Some stage \<Rightarrow>
             if are_all_tasks_done stage ?st1
             then (case Stage_has_finished now stage ?st1 of
                     Raise e s \<Rightarrow> Raise e s
                   | Ok _ st2 \<Rightarrow> Ok (?t1\<lparr>t_finished_on := Some now\<rparr>) st2)
             else Ok (?t1\<lparr>t_finished_on := Some now\<rparr>) ?st1)"
    using ts by (simp add: Task_has_finished_def Let_def)
  from r show "t' = task\<lparr>t_status := Successful, t_successful := True, t_finished_on := Some now\<rparr>"
    unfolding unf by (auto split: option.splits if_splits result.splits)
  have "same_core ?st1 st'"
  proof (cases "find (\<lambda>s. s_id s = t_stage task) (stages ?st1)")
    case None
    with r show ?thesis unfolding unf by simp
  next
    case (Some stage)
    show ?thesis
    proof (cases "are_all_tasks_done stage ?st1")
      case False
      with r Some show ?thesis unfolding unf by simp
    next
      case True
      with r Some same_core_Stage_has_finished[of ?st1 now stage] show ?thesis
        unfolding unf by (cases "Stage_has_finished now stage ?st1") simp_all
    qed
  qed
  then show "tasks st' = upsert t_id ?t1 (tasks st)" by (simp add: same_core_def save_task_def)
qed

lemma Task_has_finished_tasks:
  "\<exists>s. (ja = None \<longrightarrow> s = Successful)
     \<and> tasks (result_state (Task_has_finished now ja task st))
        = upsert t_id (task\<lparr>t_status := s,
             t_successful := (if s = Successful then True else t_successful task)\<rparr>) (tasks st)"
proof -
  let ?c = "ja = None \<or> t_succeed_on_failure task
                \<or> length (filter (\<lambda>j. ja_task j = t_id task \<and> ja_successful j = True)
                             (job_attempts st)) > 0"
  let ?p = "(if ?c then Task_set_status Successful task st else Task_set_status Failed task st)"
  obtain task1 st1 where p: "?p = (task1, st1)" by (cases ?p) auto
  then have "\<exists>s. (ja = None \<longrightarrow> s = Successful) \<and> Task_set_status s task st = (task1, st1)"
    by (auto split: if_splits)
  then obtain s where s: "ja = None \<longrightarrow> s = Successful"
    and ts: "Task_set_status s task st = (task1, st1)" by blast
  let ?t1 = "task\<lparr>t_status := s, t_successful := (if s = Successful then True else t_successful task)\<rparr>"
  from ts have e: "task1 = ?t1" "st1 = save_task ?t1 st"
    by (auto simp add: Task_set_status_def Let_def)
  let ?t2 = "task1\<lparr>t_finished_on := Some now\<rparr>"
  have unf: "Task_has_finished now ja task st =
      (case find (\<lambda>s. s_id s = t_stage ?t2) (stages st1) of
           None \<Rightarrow> Raise DoesNotExist st1
         | Some stage \<Rightarrow>
             if are_all_tasks_done stage st1
             then (case Stage_has_finished now stage st1 of
                     Raise e s \<Rightarrow> Raise e s
                   | Ok _ st2 \<Rightarrow> Ok ?t2 st2)
             else Ok ?t2 st1)"
    using p by (simp add: Task_has_finished_def Let_def)
  have sc: "same_core st1 (result_state (Task_has_finished now ja task st))"
  proof (cases "find (\<lambda>s. s_id s = t_stage ?t2) (stages st1)")
    case None
    then show ?thesis by (simp add: unf)
  next
    case (Some stage)
    show ?thesis
    proof (cases "are_all_tasks_done stage st1")
      case False
      with Some show ?thesis by (simp add: unf)
    next
      case True
      from same_core_Stage_has_finished[of st1 now stage] Some True show ?thesis
        by (cases "Stage_has_finished now stage st1") (simp_all add: unf)
    qed
  qed
  then have "tasks (result_state (Task_has_finished now ja task st)) = upsert t_id ?t1 (tasks st)"
    by (simp add: same_core_def save_task_def e)
  with s show ?thesis by blast
qed

lemma Task_has_finished_marked:
  assumes m: "marked D st" and c: "t_id task \<notin> D \<or> ja = None"
  shows "marked D (result_state (Task_has_finished now ja task st))"
proof -
  from Task_has_finished_tasks[of ja now task st] obtain s where
    s: "ja = None \<longrightarrow> s = Successful"
    and u: "tasks (result_state (Task_has_finished now ja task st))
        = upsert t_id (task\<lparr>t_status := s,
             t_successful := (if s = Successful then True else t_successful task)\<rparr>) (tasks st)"
    by blast
  show ?thesis by (rule marked_upsert[OF m _ u]) (use c s in auto)
qed

lemma Task_has_finished_None_marked:
  assumes m: "marked D st" and r: "Task_has_finished now None task st = Ok t' st'"
  shows "marked (insert (t_id task) D) st'"
proof -
  from Task_has_finished_noop(2)[OF r]
  have u: "tasks st' = upsert t_id (task\<lparr>t_status := Successful, t_successful := True\<rparr>) (tasks st)" .
  from marked_upsert_insert[OF m _ u] show ?thesis by simp
qed

lemma submit_attempt_tasks: "tasks (result_state (submit_attempt self task cmd st)) = tasks st"
  by (simp add: submit_attempt_def add_jobAttempt_def submit_job_def Let_def split: option.splits)

lemma run_task_marked:
  assumes m: "marked D st" and c: "t_NOOP task \<or> t_id task \<notin> D"
  shows "marked D (result_state (run_task refs now self task st))"
proof (cases "t_NOOP task")
  case True
  with m show ?thesis by (simp add: run_task_def)
next
  case nn: False
  with c have nd: "t_id task \<notin> D" by simp
  show ?thesis
  proof (cases "find (\<lambda>s. s_id s = t_stage task) (stages st)")
    case None
    with nn m show ?thesis by (simp add: run_task_def)
  next
    case (Some stage)
    let ?st1 = "start_stage now stage st"
    have m1: "marked D ?st1" by (rule marked_same[OF same_core_start_stage m])
    obtain task1 st2 where ts: "Task_set_status In_progress task ?st1 = (task1, st2)"
      by (cases "Task_set_status In_progress task ?st1") auto
    then have id1: "t_id task1 = t_id task" and e2: "st2 = save_task task1 ?st1"
      by (auto simp: Task_set_status_def Let_def)
    have m2: "marked D st2" unfolding e2 by (rule marked_save[OF m1]) (simp add: id1 nd)
    have unf: "run_task refs now self task st =
      (case set_output_paths task1 (Task_output_files task1 st2) st2 of
                  Raise e s \<Rightarrow> Raise e s
                | Ok _ st3 \<Rightarrow>
                    (case replace_refs (refs (t_pcmd task1)) (t_pcmd task1) st3 of
                       Raise e s \<Rightarrow> Raise e s
                     | Ok exec_command st4 \<Rightarrow>
                         (let task2 = task1\<lparr>t_exec_command := Some exec_command\<rparr>
                          in case submit_attempt self task2 exec_command st4 of
                               Raise e s \<Rightarrow> Raise e s
                             | Ok jobAttempt st6 \<Rightarrow>
                                 Ok (task2, Some jobAttempt) (save_task task2 st6))))"
      using nn Some ts by (simp add: run_task_def)
    have m3': "marked D (result_state (set_output_paths task1 (Task_output_files task1 st2) st2))"
      by (rule marked_same[OF same_core_set_output_paths m2])
    show ?thesis
    proof (cases "set_output_paths task1 (Task_output_files task1 st2) st2")
      case (Raise e s)
      with m3' show ?thesis by (simp add: unf)
    next
      case (Ok u st3)
      with m3' have m3: "marked D st3" by simp
      show ?thesis
      proof (cases "replace_refs (refs (t_pcmd task1)) (t_pcmd task1) st3")
        case (Raise e s)
        with replace_refs_state[of "refs (t_pcmd task1)" "t_pcmd task1" st3] have "s = st3" by simp
        with Raise Ok m3 show ?thesis by (simp add: unf)
      next
        case rr: (Ok cmd st4)
        with replace_refs_state[of "refs (t_pcmd task1)" "t_pcmd task1" st3] have e4: "st4 = st3" by simp
        let ?task2 = "task1\<lparr>t_exec_command := Some cmd\<rparr>"
        have m5: "marked D (result_state (submit_attempt self ?task2 cmd st3))"
          by (rule marked_tasks_eq[OF submit_attempt_tasks m3])
        show ?thesis
        proof (cases "submit_attempt self ?task2 cmd st3")
          case (Raise e s)
          with m5 Ok rr e4 show ?thesis by (simp add: unf Let_def)
        next
          case sk: (Ok ja st6)
          with m5 have "marked D st6" by simp
          then have "marked D (save_task ?task2 st6)"
            by (rule marked_save) (simp add: id1 nd)
          then show ?thesis using Ok rr e4 sk by (simp add: unf Let_def)
        qed
      qed
    qed
  qed
qed

lemma reattempt_task_marked:
  assumes m: "marked D st" and c: "t_NOOP task \<or> t_id task \<notin> D"
  shows "marked D (result_state (reattempt_task refs now self task st))"
proof (cases "\<not> t_successful task
      \<and> int (length (filter (\<lambda>ja. ja_task ja = t_id task) (job_attempts st))) < w_max_reattempts self")
  case False
  then have "same_core st (result_state (reattempt_task refs now self task st))"
    by (auto simp: reattempt_task_def Let_def)
  from marked_same[OF this m] show ?thesis .
next
  case True
  show ?thesis
  proof (cases "Task_job_output_dir task st")
    case (Raise e s)
    with Task_job_output_dir_result[of task st] have "s = st" by simp
    with Raise True m show ?thesis by (simp add: reattempt_task_def Let_def)
  next
    case (Ok d s0)
    let ?st1 = "st\<lparr>fs := rm_rf_glob d (fs st)\<rparr>"
    have m1: "marked D ?st1" by (rule marked_same[OF _ m]) simp
    have "result_state (reattempt_task refs now self task st)
            = result_state (run_task refs now self task ?st1)"
      using True Ok by (cases "run_task refs now self task ?st1")
        (simp_all add: reattempt_task_def Let_def)
    with run_task_marked[OF m1 c, of refs now self] show ?thesis by simp
  qed
qed

lemma clear_job_output_dir_marked:
  assumes m: "marked D st" and g: "t_id task \<in> D \<longrightarrow> t_status task = Successful \<and> t_successful task"
  shows "marked D (result_state (clear_job_output_dir task st))"
proof -
  let ?t = "task\<lparr>t_cleared_output_files := True\<rparr>"
  have g': "t_id ?t \<in> D \<longrightarrow> t_status ?t = Successful \<and> t_successful ?t" using g by simp
  show ?thesis
  proof (cases "t_dont_delete_output_files task")
    case True
    then show ?thesis using marked_save[OF m g'] by (simp add: clear_job_output_dir_def Let_def)
  next
    case False
    show ?thesis
    proof (cases "Task_job_output_dir task st")
      case (Raise e s)
      with Task_job_output_dir_result[of task st] have "s = st" by simp
      with Raise False m show ?thesis by (simp add: clear_job_output_dir_def Let_def)
    next
      case (Ok d s)
      with Task_job_output_dir_result[of task st] have e: "s = st" by simp
      let ?st1 = "st\<lparr>fs := rm_rf_glob d (fs st)\<rparr>"
      have m1: "marked D ?st1" by (rule marked_same[OF _ m]) simp
      from marked_save[OF m1 g']
      show ?thesis using Ok e False by (simp add: clear_job_output_dir_def Let_def)
    qed
  qed
qed

lemma clear_tasks_marked:
  assumes "marked D st"
    and "\<forall>t\<in>set ts. t_id t \<in> D \<longrightarrow> t_status t = Successful \<and> t_successful t"
  shows "marked D (result_state (clear_tasks ts wm st))"
  using assms
proof (induction ts arbitrary: wm st)
  case Nil
  then show ?case by simp
next
  case (Cons t ts)
  from Cons.prems have g: "t_id t \<in> D \<longrightarrow> t_status t = Successful \<and> t_successful t" by simp
  note c = clear_job_output_dir_marked[OF Cons.prems(1) g]
  show ?case
  proof (cases "clear_job_output_dir t st")
    case (Raise e s)
    with c show ?thesis by simp
  next
    case (Ok t' st1)
    with c have m1: "marked D st1" by simp
    show ?thesis
    proof (cases "t_id t' \<in> set (g_nodes (dag wm))")
      case True
      from Cons.IH[OF m1, of "set_cleared (t_id t') wm"] Cons.prems(2)
      show ?thesis using Ok True by simp
    next
      case False
      with Ok m1 show ?thesis by simp
    qed
  qed
qed

lemma clear_intermediate_tasks_marked:
  assumes m: "marked D st"
  shows "marked D (result_state (clear_intermediate_tasks workflow wm st))"
proof -
  have "\<And>its. marked D (result_state
          (clear_tasks (filter (\<lambda>t. t_id t \<in> set its) (Workflow_tasks workflow st)) wm st))"
    using m Workflow_tasks_subset[of workflow st]
    by (intro clear_tasks_marked) (auto simp: marked_def)
  then show ?thesis using m
    by (simp add: clear_intermediate_tasks_def split: sum.splits)
qed

lemma submit_ready_marked:
  assumes "marked D st" "\<forall>n\<in>set ns. t_NOOP n \<or> t_id n \<notin> D"
  shows "marked D (result_state (submit_ready refs now workflow ns wm st))"
  using assms
proof (induction ns arbitrary: wm st)
  case Nil
  then show ?case by simp
next
  case (Cons n ns)
  from Cons.prems have c: "t_NOOP n \<or> t_id n \<notin> D" by simp
  note r1 = run_task_marked[OF Cons.prems(1) c, of refs now workflow]
  show ?case
  proof (cases "run_task refs now workflow n st")
    case (Raise e s)
    with r1 show ?thesis by simp
  next
    case (Ok x st1)
    obtain n' j where x: "x = (n', j)" by (cases x) auto
    from Ok r1 have m1: "marked D st1" by simp
    have "result_state (submit_ready refs now workflow (n # ns) wm st)
        = result_state (submit_ready refs now workflow ns (queue_task n wm) st1)"
      using Ok x by (cases "submit_ready refs now workflow ns (queue_task n wm) st1") auto
    with Cons.IH[OF m1, of "queue_task n wm"] Cons.prems(2) show ?thesis by simp
  qed
qed

lemma wm_run_ready_tasks_marked:
  assumes m: "marked D st" and c: "\<forall>t\<in>set (tasks st). t_NOOP t \<or> t_id t \<notin> D"
  shows "marked D (result_state (wm_run_ready_tasks refs now workflow wm st))"
proof -
  have "\<forall>n\<in>set (get_ready_tasks wm st). t_NOOP n \<or> t_id n \<notin> D"
    using c get_ready_tasks_ids[of _ wm st] by blast
  note r = submit_ready_marked[OF m this, of refs now workflow wm]
  show ?thesis
  proof (cases "submit_ready refs now workflow (get_ready_tasks wm st) wm st")
    case (Raise e s)
    with r show ?thesis by (simp add: wm_run_ready_tasks_def)
  next
    case (Ok x st1)
    obtain ready wm1 where x: "x = (ready, wm1)" by (cases x) auto
    from Ok r have m1: "marked D st1" by simp
    show ?thesis
    proof (cases "w_delete_intermediates workflow")
      case False
      with Ok x m1 show ?thesis by (simp add: wm_run_ready_tasks_def)
    next
      case True
      have "result_state (wm_run_ready_tasks refs now workflow wm st)
          = result_state (clear_intermediate_tasks workflow wm1 st1)"
        using Ok x True by (cases "clear_intermediate_tasks workflow wm1 st1")
          (simp_all add: wm_run_ready_tasks_def)
      with clear_intermediate_tasks_marked[OF m1, of workflow wm1] show ?thesis by simp
    qed
  qed
qed

lemma complete_noops_marked:
  assumes "marked D st" "complete_noops now ts wm st = Ok wm' st'"
  shows "marked (D \<union> t_id ` {t \<in> set ts. t_NOOP t}) st'
       \<and> set (g_nodes (dag_queue wm')) = set (g_nodes (dag_queue wm)) - t_id ` {t \<in> set ts. t_NOOP t}
       \<and> queued_tasks wm' = queued_tasks wm"
  using assms
proof (induction ts arbitrary: D wm st)
  case Nil
  then show ?case by simp
next
  case (Cons t ts)
  show ?case
  proof (cases "t_NOOP t")
    case False
    with Cons.prems have "complete_noops now ts wm st = Ok wm' st'" by simp
    moreover have "{x \<in> set (t # ts). t_NOOP x} = {x \<in> set ts. t_NOOP x}"
      using False by auto
    ultimately show ?thesis using Cons.IH[OF Cons.prems(1)] by simp
  next
    case True
    with Cons.prems obtain t' st1 wm1 where h: "Task_has_finished now None t st = Ok t' st1"
      and c: "complete_task t' wm = Inr wm1"
      and rest: "complete_noops now ts wm1 st1 = Ok wm' st'"
      by (auto split: result.splits sum.splits)
    note m1 = Task_has_finished_None_marked[OF Cons.prems(1) h]
    from Task_has_finished_noop(1)[OF h] have id: "t_id t' = t_id t" by simp
    note cw = complete_task_wm[OF c]
    have N: "{x \<in> set (t # ts). t_NOOP x} = insert t {x \<in> set ts. t_NOOP x}"
      using True by auto
    from Cons.IH[OF m1 rest] cw id show ?thesis unfolding N by auto
  qed
qed

definition queued_noops :: "Task list \<Rightarrow> WorkflowManager \<Rightarrow> nat set" where
  "queued_noops T0 wm = {tid \<in> set (queued_tasks wm). noop_id T0 tid}"

definition noops_done :: "Task list \<Rightarrow> WorkflowManager \<Rightarrow> State \<Rightarrow> bool" where
  "noops_done T0 wm st =
     (marked (queued_noops T0 wm) st
      \<and> queued_noops T0 wm \<inter> set (g_nodes (dag_queue wm)) = {})"

definition no_noop_attempts :: "Task list \<Rightarrow> State \<Rightarrow> bool" where
  "no_noop_attempts T0 st = (\<forall>k\<in>set (ja_keys st). \<not> noop_id T0 (snd k))"

lemma step_no_noop_attempts:
  assumes s: "step T0 a st st'" and d: "distinct (map t_id T0)" and n: "no_noop_attempts T0 st"
  shows "no_noop_attempts T0 st'"
proof -
  from s have k: "ja_keys st' = ja_keys st @ a" and nn: "\<forall>k\<in>set a. nonnoop T0 (snd k)"
    by (simp_all add: step_def)
  from nn noop_id_not_nonnoop[OF d] have "\<forall>k\<in>set a. \<not> noop_id T0 (snd k)" by blast
  with n show ?thesis by (auto simp: no_noop_attempts_def k)
qed

lemma queued_noops_rows:
  assumes ok: "tbl_ok T0 st" and d: "distinct (map t_id T0)"
  shows "\<forall>t\<in>set (tasks st). t_NOOP t \<or> t_id t \<notin> queued_noops T0 wm"
proof
  fix t assume "t \<in> set (tasks st)"
  with ok have "snap T0 t" by (simp add: tbl_ok_def)
  from noop_id_NOOP[OF d this] show "t_NOOP t \<or> t_id t \<notin> queued_noops T0 wm"
    by (auto simp: queued_noops_def)
qed

lemma pass_noops_done:
  assumes ok: "tbl_ok T0 st" and d: "distinct (map t_id T0)"
    and inv: "noops_done T0 wm st"
    and w: "wm_run_ready_tasks refs now self wm st = Ok (submitted, wm1) st1"
    and c: "complete_noops now submitted wm1 st1 = Ok wm2 st2"
  shows "noops_done T0 wm2 st2"
proof -
  let ?D = "queued_noops T0 wm"
  let ?N = "t_id ` {t \<in> set submitted. t_NOOP t}"
  from inv have m: "marked ?D st" and i2: "?D \<inter> set (g_nodes (dag_queue wm)) = {}"
    by (simp_all add: noops_done_def)
  from wm_run_ready_tasks_marked[OF m queued_noops_rows[OF ok d], of refs now self wm] w
  have m1: "marked ?D st1" by simp
  note cm = complete_noops_marked[OF m1 c]
  note w1 = wm_run_ready_tasks_Ok[OF w]
  note sn = wm_run_ready_tasks_snap[OF ok w]
  have q2: "set (queued_tasks wm2) = set (queued_tasks wm) \<union> t_id ` set submitted"
  proof -
    from w1 have "map t_id submitted = map t_id (get_ready_tasks wm st)" by simp
    then have "t_id ` set submitted = t_id ` set (get_ready_tasks wm st)"
      by (metis set_map)
    with cm w1 show ?thesis by simp
  qed
  have D2: "queued_noops T0 wm2 = ?D \<union> ?N"
  proof (rule set_eqI)
    fix tid
    show "tid \<in> queued_noops T0 wm2 \<longleftrightarrow> tid \<in> ?D \<union> ?N"
    proof
      assume a: "tid \<in> queued_noops T0 wm2"
      then have n: "noop_id T0 tid" and q: "tid \<in> set (queued_tasks wm) \<union> t_id ` set submitted"
        by (simp_all add: queued_noops_def q2)
      show "tid \<in> ?D \<union> ?N"
      proof (cases "tid \<in> set (queued_tasks wm)")
        case True
        with n show ?thesis by (simp add: queued_noops_def)
      next
        case False
        with q obtain t where t: "t \<in> set submitted" "tid = t_id t" by auto
        from sn t have "snap T0 t" by simp
        from noop_id_NOOP[OF d this] n t have "t_NOOP t" by simp
        with t show ?thesis by auto
      qed
    next
      assume a: "tid \<in> ?D \<union> ?N"
      show "tid \<in> queued_noops T0 wm2"
      proof (cases "tid \<in> ?D")
        case True
        then show ?thesis by (simp add: queued_noops_def q2)
      next
        case False
        with a obtain t where t: "t \<in> set submitted" "t_NOOP t" "tid = t_id t" by auto
        from sn t have "snap T0 t" by simp
        from snap_noop[OF this t(2)] t show ?thesis by (auto simp: queued_noops_def q2)
      qed
    qed
  qed
  from cm have m2: "marked (?D \<union> ?N) st2"
    and n2: "set (g_nodes (dag_queue wm2)) = set (g_nodes (dag_queue wm1)) - ?N" by simp_all
  from w1 have "dag_queue wm1 = dag_queue wm" by simp
  with n2 i2 have "(?D \<union> ?N) \<inter> set (g_nodes (dag_queue wm2)) = {}" by auto
  with m2 show ?thesis by (simp add: noops_done_def D2)
qed

lemma run_ready_tasks_noops_done:
  assumes "tbl_ok T0 st" "distinct (map t_id T0)" "noops_done T0 wm st"
    "run_ready_tasks refs now self wm st = Ok wm' st'"
  shows "noops_done T0 wm' st'"
  using assms
proof (induction refs now self wm st rule: run_ready_tasks.induct)
  case (1 refs now self wm st)
  note ok = "1.prems"(1) and d = "1.prems"(2) and inv = "1.prems"(3) and r = "1.prems"(4)
  from r obtain x st1 where w0: "wm_run_ready_tasks refs now self wm st = Ok x st1"
    by (subst (asm) run_ready_tasks.simps) (auto split: result.splits)
  obtain submitted wm1 where x: "x = (submitted, wm1)" by (cases x) auto
  from w0 x have w: "wm_run_ready_tasks refs now self wm st = Ok (submitted, wm1) st1" by simp
  from r w obtain wm2 st2 where c: "complete_noops now submitted wm1 st1 = Ok wm2 st2"
    by (subst (asm) run_ready_tasks.simps) (auto split: result.splits)
  note p = pass_noops_done[OF ok d inv w c]
  from wm_run_ready_tasks_step[OF ok, of refs now self wm] w
  obtain a1 where s1: "step T0 a1 st st1" by auto
  from complete_noops_step[OF step_tbl_ok[OF s1] wm_run_ready_tasks_snap[OF ok w], of now wm1] c
  have s2: "step T0 [] st1 st2" by simp
  show ?case
  proof (cases "submitted = []")
    case True
    with r w c have "wm' = wm2 \<and> st' = st2" by (subst (asm) run_ready_tasks.simps) simp
    with p show ?thesis by simp
  next
    case False
    with r w c have "run_ready_tasks refs now self wm2 st2 = Ok wm' st'"
      by (subst (asm) run_ready_tasks.simps) simp
    from "1.IH"[OF w0 x[symmetric] c False step_tbl_ok[OF s2] d p this] show ?thesis .
  qed
qed

lemma complete_task_noops_done:
  assumes c: "complete_task task wm = Inr wm1" and inv: "noops_done T0 wm st"
  shows "noops_done T0 wm1 st"
proof -
  from complete_task_wm[OF c]
  have "set (g_nodes (dag_queue wm1)) \<subseteq> set (g_nodes (dag_queue wm))"
    "queued_tasks wm1 = queued_tasks wm" by auto
  with inv show ?thesis by (auto simp: noops_done_def queued_noops_def)
qed

lemma loop_body_noops_done:
  assumes ok: "tbl_ok T0 st" and d: "distinct (map t_id T0)"
    and na: "no_noop_attempts T0 st" and inv: "noops_done T0 wm st"
    and has: "ja_task jobAttempt \<in> ja_task ` set (job_attempts st)"
    and l: "loop_body refs tof now jobAttempt self wm st = Ok (self1, wm1) st1"
  shows "noops_done T0 wm1 st1"
proof -
  let ?D = "queued_noops T0 wm"
  from inv have m: "marked ?D st" and i2: "?D \<inter> set (g_nodes (dag_queue wm)) = {}"
    by (simp_all add: noops_done_def)
  from l obtain task where f: "find (\<lambda>x. t_id x = ja_task jobAttempt) (tasks st) = Some task"
    by (cases "find (\<lambda>x. t_id x = ja_task jobAttempt) (tasks st)") (auto simp: loop_body_def)
  from find_Some_set[OF f] have tin: "task \<in> set (tasks st)" and tid: "t_id task = ja_task jobAttempt"
    by simp_all
  from ok tin have sn: "snap T0 task" by (simp add: tbl_ok_def)
  from has tid na have "\<not> noop_id T0 (t_id task)"
    by (auto simp: no_noop_attempts_def keys_tasks[symmetric])
  then have nd: "t_id task \<notin> ?D" by (simp add: queued_noops_def)
  show ?thesis
  proof (cases "ja_successful jobAttempt \<or> t_succeed_on_failure task")
    case True
    with l f obtain task' st2 wm2 where
      h: "Task_has_finished now (Some jobAttempt) task st = Ok task' st2"
      and c: "complete_task task' wm = Inr wm2"
      and r: "run_ready_tasks refs now self wm2 st2 = Ok wm1 st1"
      by (auto simp: loop_body_def split: result.splits sum.splits)
    from Task_has_finished_marked[OF m, of task "Some jobAttempt" now] nd h
    have "marked ?D st2" by simp
    with i2 have "noops_done T0 wm st2" by (simp add: noops_done_def)
    note i3 = complete_task_noops_done[OF c this]
    from Task_has_finished_step(1)[OF ok sn, of now "Some jobAttempt"] h
    have "step T0 [] st st2" by simp
    from run_ready_tasks_noops_done[OF step_tbl_ok[OF this] d i3 r] show ?thesis .
  next
    case False
    with l f obtain r self1' st2 where
      ra: "reattempt_task refs now self task st = Ok (r, self1') st2"
      by (auto simp: loop_body_def split: result.splits)
    from reattempt_task_marked[OF m, of task refs now self] nd ra
    have m2: "marked ?D st2" by simp
    show ?thesis
    proof (cases "r = Some True")
      case True
      with l f False ra have "wm1 = wm \<and> st1 = st2" by (simp add: loop_body_def)
      with m2 i2 show ?thesis by (simp add: noops_done_def)
    next
      case nt: False
      with l f False ra obtain t' where
        h: "Task_has_finished now (Some jobAttempt) task st2 = Ok t' st1" and e: "wm1 = wm"
        by (auto simp: loop_body_def split_beta split: result.splits if_splits)
      from Task_has_finished_marked[OF m2, of task "Some jobAttempt" now] nd h
      have "marked ?D st1" by simp
      with i2 e show ?thesis by (simp add: noops_done_def)
    qed
  qed
qed

lemma noops_done_tasks_eq:
  "tasks st' = tasks st \<Longrightarrow> noops_done T0 wm st \<Longrightarrow> noops_done T0 wm st'"
  by (simp add: noops_done_def marked_def)

lemma tbl_ok_tasks_eq: "tasks st' = tasks st \<Longrightarrow> tbl_ok T0 st \<Longrightarrow> tbl_ok T0 st'"
  by (simp add: tbl_ok_def)

lemma after_loop_noops_done:
  assumes ok: "tbl_ok T0 st" and inv: "noops_done T0 wm st"
    and r: "after_loop fin now self wm st = Returned self' wm' st'
          \<or> after_loop fin now self wm st = Blocked self' wm' st'"
  shows "noops_done T0 wm' st' \<and> tbl_ok T0 st'"
proof -
  from after_loop_Returned[of fin now self wm st] r
  have "wm' = wm \<and> tasks st' = tasks st" by auto
  with noops_done_tasks_eq[OF _ inv] tbl_ok_tasks_eq[OF _ ok] show ?thesis by simp
qed

lemma run_loop_noops_done:
  assumes "tbl_ok T0 st" "distinct (map t_id T0)" "distinct (map t_id (tasks st))"
    "no_noop_attempts T0 st" "noops_done T0 wm st"
    "run_loop refs tof fin jm now evs self wm st = Returned self' wm' st'
     \<or> run_loop refs tof fin jm now evs self wm st = Blocked self' wm' st'"
  shows "noops_done T0 wm' st' \<and> tbl_ok T0 st'"
  using assms
proof (induction evs arbitrary: now self wm st)
  case Nil
  show ?case
  proof (cases "queued_jobAttempts jm st = []")
    case True
    with Nil.prems(6) after_loop_noops_done[OF Nil.prems(1) Nil.prems(5), of fin now self self' wm' st']
    show ?thesis by simp
  next
    case False
    with Nil.prems show ?thesis by simp
  qed
next
  case (Cons ev evs)
  note ok = Cons.prems(1) and d = Cons.prems(2) and di = Cons.prems(3)
    and na = Cons.prems(4) and inv = Cons.prems(5) and r = Cons.prems(6)
  show ?case
  proof (cases "queued_jobAttempts jm st = []")
    case True
    with r after_loop_noops_done[OF ok inv, of fin now self self' wm' st']
    show ?thesis by simp
  next
    case q: False
    show ?thesis
    proof (cases "find (\<lambda>ja. ja_id ja = fst (snd ev)) (queued_jobAttempts jm st)")
      case None
      with q r have "run_loop refs tof fin jm now evs self wm st = Returned self' wm' st'
          \<or> run_loop refs tof fin jm now evs self wm st = Blocked self' wm' st'" by simp
      from Cons.IH[OF ok d di na inv this] show ?thesis .
    next
      case (Some ja)
      let ?t = "fst ev"
      let ?ja = "ja\<lparr>ja_queue_status := Completed, ja_successful := snd (snd ev),
                      ja_finished_on := Some ?t\<rparr>"
      let ?st1 = "mark_completed jm (ja_id ja) (snd (snd ev)) ?t st"
      let ?L = "loop_body refs tof ?t ?ja self wm ?st1"
      have s1: "step T0 [] st ?st1" by (rule mark_completed_step[OF ok])
      have t1: "tasks ?st1 = tasks st" by (simp add: mark_completed_def)
      note ok1 = step_tbl_ok[OF s1] and di1 = step_distinct[OF s1 di]
      note na1 = step_no_noop_attempts[OF s1 d na]
      note inv1 = noops_done_tasks_eq[OF t1 inv]
      from find_Some_set[OF Some] have "ja \<in> set (job_attempts st)"
        by (simp add: queued_jobAttempts_def)
      then have "ja_task ?ja \<in> snd ` set (ja_keys st)" by (simp add: keys_tasks)
      moreover from s1 have "ja_keys ?st1 = ja_keys st" by (simp add: step_def)
      ultimately have has: "ja_task ?ja \<in> ja_task ` set (job_attempts ?st1)"
        by (simp add: keys_tasks[symmetric])
      have unf: "run_loop refs tof fin jm now (ev # evs) self wm st =
         (case ?L of Raise e s \<Rightarrow> Raised e s
          | Ok (self1, wm1) st2 \<Rightarrow> run_loop refs tof fin jm ?t evs self1 wm1 st2)"
        using q Some by (simp add: Let_def)
      show ?thesis
      proof (cases ?L)
        case (Raise e s)
        with r show ?thesis unfolding unf by simp
      next
        case (Ok x st2)
        obtain self1 wm1 where x: "x = (self1, wm1)" by (cases x) auto
        from Ok x have lk: "?L = Ok (self1, wm1) st2" by simp
        note inv2 = loop_body_noops_done[OF ok1 d na1 inv1 has lk]
        from loop_body_eff(2)[OF ok1 di1 has lk]
        have e2: "eff2 T0 (w_max_reattempts self) wm ?st1 wm1 st2" by simp
        then obtain a where s2: "step T0 a ?st1 st2" by (auto simp: eff2_def)
        from r lk have "run_loop refs tof fin jm ?t evs self1 wm1 st2 = Returned self' wm' st'
          \<or> run_loop refs tof fin jm ?t evs self1 wm1 st2 = Blocked self' wm' st'"
          unfolding unf by simp
        from Cons.IH[OF step_tbl_ok[OF s2] d step_distinct[OF s2 di1]
            step_no_noop_attempts[OF s2 d na1] inv2 this]
        show ?thesis .
      qed
    qed
  qed
qed

lemma run_noops_done:
  assumes di: "distinct (map t_id (tasks st))"
    and na: "\<forall>t\<in>set (tasks st). t_NOOP t \<longrightarrow> jobAttempts_count (t_id t) st = 0"
    and r: "run refs tof fin now events self st = Returned self' wm' st'
          \<or> run refs tof fin now events self st = Blocked self' wm' st'"
  shows "\<forall>t\<in>set (tasks st'). t_NOOP t \<and> t_id t \<in> set (queued_tasks wm') \<longrightarrow>
           t_status t = Successful \<and> t_successful t \<and> t_id t \<notin> set (g_nodes (dag_queue wm'))"
proof -
  let ?T0 = "tasks st"
  let ?wm = "WorkflowManager_init self st"
  have na0: "no_noop_attempts ?T0 st"
    unfolding no_noop_attempts_def
  proof
    fix k assume k: "k \<in> set (ja_keys st)"
    show "\<not> noop_id ?T0 (snd k)"
    proof
      assume "noop_id ?T0 (snd k)"
      then obtain t where t: "t \<in> set (tasks st)" "t_id t = snd k" "t_NOOP t"
        by (auto simp: noop_id_def)
      from na t(1,3) have "jobAttempts_count (t_id t) st = 0" by blast
      with t(2) have "filter (\<lambda>x. snd x = snd k) (ja_keys st) = []" by (simp add: count_keys')
      with k show False by (auto simp: filter_empty_conv)
    qed
  qed
  have inv0: "noops_done ?T0 ?wm st"
    by (simp add: noops_done_def queued_noops_def marked_def WorkflowManager_init_def Let_def)
  from r obtain wm1 st1 jm where rr: "run_ready_tasks refs now self ?wm st = Ok wm1 st1"
    and rl: "run_loop refs tof fin jm now events self wm1 st1 = Returned self' wm' st'
          \<or> run_loop refs tof fin jm now events self wm1 st1 = Blocked self' wm' st'"
    by (auto simp: run_def Let_def split: result.splits option.splits)
  note inv1 = run_ready_tasks_noops_done[OF tbl_ok_init di inv0 rr]
  from run_ready_tasks_eff(2)[OF tbl_ok_init di rr, of 0]
  obtain a where s1: "step ?T0 a st st1" by (auto simp: eff2_def)
  from run_loop_noops_done[OF step_tbl_ok[OF s1] di step_distinct[OF s1 di]
      step_no_noop_attempts[OF s1 di na0] inv1 rl]
  have inv: "noops_done ?T0 wm' st'" and ok: "tbl_ok ?T0 st'" by simp_all
  show ?thesis
  proof (intro ballI impI)
    fix t assume t: "t \<in> set (tasks st')" and c: "t_NOOP t \<and> t_id t \<in> set (queued_tasks wm')"
    from ok t have "snap ?T0 t" by (simp add: tbl_ok_def)
    from snap_noop[OF this] c have "t_id t \<in> queued_noops ?T0 wm'" by (simp add: queued_noops_def)
    with inv t show "t_status t = Successful \<and> t_successful t \<and> t_id t \<notin> set (g_nodes (dag_queue wm'))"
      by (auto simp: noops_done_def marked_def)
  qed
qed

lemma get_ready_tasks_empty_iff:
  "get_ready_tasks wm st = [] \<longleftrightarrow>
     (\<forall>t\<in>set (tasks st). \<not> (t_id t \<in> set (g_nodes (dag_queue wm))
          \<and> in_degree_of (dag_queue wm) (t_id t) = 0 \<and> t_id t \<notin> set (queued_tasks wm)))"
  by (auto simp: get_ready_tasks_def Let_def degree_0_tasks filter_empty_conv)

lemma frontier_stays_empty:
  assumes e: "get_ready_tasks wm st = []" and ok: "tbl_ok (tasks st) st'"
    and q: "dag_queue wm' = dag_queue wm" "set (queued_tasks wm) \<subseteq> set (queued_tasks wm')"
  shows "get_ready_tasks wm' st' = []"
  unfolding get_ready_tasks_empty_iff
proof
  fix t' assume "t' \<in> set (tasks st')"
  with ok obtain t where t: "t \<in> set (tasks st)" "t_id t' = t_id t"
    by (auto simp: tbl_ok_def snap_def variant_def)
  with e[unfolded get_ready_tasks_empty_iff] q
  show "\<not> (t_id t' \<in> set (g_nodes (dag_queue wm'))
          \<and> in_degree_of (dag_queue wm') (t_id t') = 0 \<and> t_id t' \<notin> set (queued_tasks wm'))"
    by auto
qed

lemma run_ready_tasks_frontier:
  "run_ready_tasks refs now self wm st = Ok wm' st' \<Longrightarrow> get_ready_tasks wm' st' = []"
proof (induction refs now self wm st rule: run_ready_tasks.induct)
  case (1 refs now self wm st)
  note r = "1.prems"
  from r obtain x st1 where w0: "wm_run_ready_tasks refs now self wm st = Ok x st1"
    by (subst (asm) run_ready_tasks.simps) (auto split: result.splits)
  obtain submitted wm1 where x: "x = (submitted, wm1)" by (cases x) auto
  from w0 x have w: "wm_run_ready_tasks refs now self wm st = Ok (submitted, wm1) st1" by simp
  from r w obtain wm2 st2 where c: "complete_noops now submitted wm1 st1 = Ok wm2 st2"
    by (subst (asm) run_ready_tasks.simps) (auto split: result.splits)
  show ?case
  proof (cases "submitted = []")
    case True
    with r w c have e: "wm' = wm1 \<and> st' = st1" by (subst (asm) run_ready_tasks.simps) simp
    note w1 = wm_run_ready_tasks_Ok[OF w]
    from w1 True have g: "get_ready_tasks wm st = []" by simp
    from wm_run_ready_tasks_step[OF tbl_ok_init, of st refs now self wm] w
    obtain a where "step (tasks st) a st st1" by auto
    from frontier_stays_empty[OF g step_tbl_ok[OF this], of wm1] w1 e show ?thesis by simp
  next
    case False
    with r w c have "run_ready_tasks refs now self wm2 st2 = Ok wm' st'"
      by (subst (asm) run_ready_tasks.simps) simp
    from "1.IH"[OF w0 x[symmetric] c False this] show ?thesis .
  qed
qed

lemma loop_body_frontier:
  assumes e: "get_ready_tasks wm st = []"
    and di: "distinct (map t_id (tasks st))"
    and has: "ja_task jobAttempt \<in> ja_task ` set (job_attempts st)"
    and l: "loop_body refs tof now jobAttempt self wm st = Ok (self1, wm1) st1"
  shows "get_ready_tasks wm1 st1 = []"
proof -
  from l obtain task where f: "find (\<lambda>x. t_id x = ja_task jobAttempt) (tasks st) = Some task"
    by (cases "find (\<lambda>x. t_id x = ja_task jobAttempt) (tasks st)") (auto simp: loop_body_def)
  show ?thesis
  proof (cases "ja_successful jobAttempt \<or> t_succeed_on_failure task")
    case True
    with l f obtain wm2 st2 where r: "run_ready_tasks refs now self wm2 st2 = Ok wm1 st1"
      by (auto simp: loop_body_def split: result.splits sum.splits)
    from run_ready_tasks_frontier[OF r] show ?thesis .
  next
    case False
    with l f have w: "wm1 = wm"
      by (auto simp: loop_body_def split_beta split: result.splits if_splits)
    from loop_body_eff(2)[OF tbl_ok_init di has l]
    obtain a where "step (tasks st) a st st1" by (auto simp: eff2_def)
    from frontier_stays_empty[OF e step_tbl_ok[OF this], of wm1] w show ?thesis by simp
  qed
qed

lemma run_loop_frontier:
  assumes "get_ready_tasks wm st = []" "distinct (map t_id (tasks st))"
    "run_loop refs tof fin jm now evs self wm st = Returned self' wm' st'
     \<or> run_loop refs tof fin jm now evs self wm st = Blocked self' wm' st'"
  shows "get_ready_tasks wm' st' = []"
  using assms
proof (induction evs arbitrary: now self wm st)
  case Nil
  show ?case
  proof (cases "queued_jobAttempts jm st = []")
    case True
    with Nil.prems(3) after_loop_Returned[of fin now self wm st]
    have "wm' = wm \<and> tasks st' = tasks st" by auto
    with Nil.prems(1) show ?thesis by (simp add: get_ready_tasks_def)
  next
    case False
    with Nil.prems show ?thesis by simp
  qed
next
  case (Cons ev evs)
  note e = Cons.prems(1) and di = Cons.prems(2) and r = Cons.prems(3)
  show ?case
  proof (cases "queued_jobAttempts jm st = []")
    case True
    with r after_loop_Returned[of fin now self wm st]
    have "wm' = wm \<and> tasks st' = tasks st" by auto
    with e show ?thesis by (simp add: get_ready_tasks_def)
  next
    case q: False
    show ?thesis
    proof (cases "find (\<lambda>ja. ja_id ja = fst (snd ev)) (queued_jobAttempts jm st)")
      case None
      with q r have "run_loop refs tof fin jm now evs self wm st = Returned self' wm' st'
          \<or> run_loop refs tof fin jm now evs self wm st = Blocked self' wm' st'" by simp
      from Cons.IH[OF e di this] show ?thesis .
    next
      case (Some ja)
      let ?t = "fst ev"
      let ?ja = "ja\<lparr>ja_queue_status := Completed, ja_successful := snd (snd ev),
                      ja_finished_on := Some ?t\<rparr>"
      let ?st1 = "mark_completed jm (ja_id ja) (snd (snd ev)) ?t st"
      let ?L = "loop_body refs tof ?t ?ja self wm ?st1"
      have t1: "tasks ?st1 = tasks st" by (simp add: mark_completed_def)
      from e t1 have e1: "get_ready_tasks wm ?st1 = []" by (simp add: get_ready_tasks_def)
      from di t1 have di1: "distinct (map t_id (tasks ?st1))" by simp
      from find_Some_set[OF Some] have "ja \<in> set (job_attempts st)"
        by (simp add: queued_jobAttempts_def)
      then have "ja_task ?ja \<in> snd ` set (ja_keys st)" by (simp add: keys_tasks)
      moreover have "ja_keys ?st1 = ja_keys st"
        using mark_completed_step[OF tbl_ok_init, of st jm "ja_id ja" "snd (snd ev)" ?t]
        by (simp add: step_def)
      ultimately have has: "ja_task ?ja \<in> ja_task ` set (job_attempts ?st1)"
        by (simp add: keys_tasks[symmetric])
      have unf: "run_loop refs tof fin jm now (ev # evs) self wm st =
         (case ?L of Raise e s \<Rightarrow> Raised e s
          | Ok (self1, wm1) st2 \<Rightarrow> run_loop refs tof fin jm ?t evs self1 wm1 st2)"
        using q Some by (simp add: Let_def)
      show ?thesis
      proof (cases ?L)
        case (Raise e s)
        with r show ?thesis unfolding unf by simp
      next
        case (Ok x st2)
        obtain self1 wm1 where x: "x = (self1, wm1)" by (cases x) auto
        from Ok x have lk: "?L = Ok (self1, wm1) st2" by simp
        note e2 = loop_body_frontier[OF e1 di1 has lk]
        from loop_body_eff(2)[OF tbl_ok_init di1 has lk]
        obtain a where s2: "step (tasks ?st1) a ?st1 st2" by (auto simp: eff2_def)
        from r lk have "run_loop refs tof fin jm ?t evs self1 wm1 st2 = Returned self' wm' st'
          \<or> run_loop refs tof fin jm ?t evs self1 wm1 st2 = Blocked self' wm' st'"
          unfolding unf by simp
        from Cons.IH[OF e2 step_distinct[OF s2 di1] this] show ?thesis .
      qed
    qed
  qed
qed

lemma run_frontier:
  assumes di: "distinct (map t_id (tasks st))"
    and r: "run refs tof fin now events self st = Returned self' wm' st'
          \<or> run refs tof fin now events self st = Blocked self' wm' st'"
  shows "get_ready_tasks wm' st' = []"
proof -
  let ?wm = "WorkflowManager_init self st"
  from r obtain wm1 st1 jm where rr: "run_ready_tasks refs now self ?wm st = Ok wm1 st1"
    and rl: "run_loop refs tof fin jm now events self wm1 st1 = Returned self' wm' st'
          \<or> run_loop refs tof fin jm now events self wm1 st1 = Blocked self' wm' st'"
    by (auto simp: run_def Let_def split: result.splits option.splits)
  from run_ready_tasks_eff(2)[OF tbl_ok_init di rr, of 0]
  obtain a where s1: "step (tasks st) a st st1" by (auto simp: eff2_def)
  from run_loop_frontier[OF run_ready_tasks_frontier[OF rr] step_distinct[OF s1 di] rl]
  show ?thesis .
qed

subsection \<open>NOOP tasks\<close>

lemma run_step:
  assumes di: "distinct (map t_id (tasks st))"
  shows "\<exists>added. step (tasks st) added st (outcome_state (run refs tof fin now events self st))"
  using run_eff[OF di, of self refs tof fin now events] by (simp add: eff_def)

text \<open>
  C6: a task with \<^verbatim>\<open>NOOP\<close> set is never submitted. \<^verbatim>\<open>_run_task\<close> returns \<^verbatim>\<open>'NOOP'\<close> for
  it and changes nothing, so no attempt is created and nothing reaches the DRM.
  \<^verbatim>\<open>_has_finished('NOOP')\<close>, when it returns, has set the task successful and saved it so,
  and \<^verbatim>\<open>complete_task\<close> then removes its node from \<^verbatim>\<open>dag_queue\<close>. In every execution of
  \<^verbatim>\<open>run\<close> (every value of the two flags, every list of DRM reports, whatever the outcome)
  on a Task table with distinct primary keys, the JobAttempt table only grows at its end,
  no attempt added belongs to the NOOP task, and every attempt handed to the DRM is one of
  the attempts added. In every such execution where no NOOP task has an attempt at the
  start, at every state of \<^verbatim>\<open>run\<close> between two DRM reports and at its return: no task is
  left in the frontier (\<^verbatim>\<open>get_ready_tasks\<close> is empty, every task that became ready was
  dispatched), and every NOOP task that was dispatched (its id is in \<^verbatim>\<open>queued_tasks\<close>) is
  successful in the Task table and is no longer a node of \<^verbatim>\<open>dag_queue\<close>. And a workflow
  that consists of a single NOOP task, with no attempt before, returns from \<^verbatim>\<open>run\<close> with
  an empty JobAttempt table and nothing handed to the DRM, with \<^verbatim>\<open>dag_queue\<close> empty and,
  when the task was not successful before, with the task dispatched and its row successful.
\<close>

theorem noop_task_never_submitted:
  "(t_NOOP task \<longrightarrow> run_task refs now self task st = Ok (task, None) st)
 \<and> (\<forall>t' st'. Task_has_finished now None task st = Ok t' st' \<longrightarrow>
       t_status t' = Successful \<and> t_successful t'
     \<and> task\<lparr>t_status := Successful, t_successful := True\<rparr> \<in> set (tasks st')
     \<and> (\<forall>wm wm'. complete_task t' wm = Inr wm' \<longrightarrow> t_id task \<notin> set (g_nodes (dag_queue wm'))))
 \<and> (t_NOOP task \<and> task \<in> set (tasks st) \<and> distinct (map t_id (tasks st)) \<longrightarrow>
       (\<exists>added subs.
           ja_keys (outcome_state (run refs tof fin now events self st)) = ja_keys st @ added
         \<and> drm_submitted (outcome_state (run refs tof fin now events self st))
             = drm_submitted st @ subs
         \<and> set subs \<subseteq> fst ` set added
         \<and> t_id task \<notin> snd ` set added))
 \<and> (distinct (map t_id (tasks st))
      \<and> (\<forall>t\<in>set (tasks st). t_NOOP t \<longrightarrow> jobAttempts_count (t_id t) st = 0) \<longrightarrow>
       (\<forall>self' wm' st'.
           run refs tof fin now events self st = Returned self' wm' st'
           \<or> run refs tof fin now events self st = Blocked self' wm' st' \<longrightarrow>
             get_ready_tasks wm' st' = []
           \<and> (\<forall>t\<in>set (tasks st'). t_NOOP t \<and> t_id t \<in> set (queued_tasks wm') \<longrightarrow>
                 t_status t = Successful \<and> t_successful t
               \<and> t_id t \<notin> set (g_nodes (dag_queue wm')))))
 \<and> (t_NOOP task \<and> tasks st = [task] \<and> stages st = [stage] \<and> t_stage task = s_id stage
      \<and> s_workflow stage = w_id self \<and> task_edges st = [] \<and> job_attempts st = []
      \<and> w_jobManager self = Some jm \<longrightarrow>
       (\<exists>self' wm' st'. run refs tof fin now events self st = Returned self' wm' st'
           \<and> job_attempts st' = [] \<and> drm_submitted st' = drm_submitted st
           \<and> g_nodes (dag_queue wm') = []
           \<and> (\<not> t_successful task \<longrightarrow>
                 tasks st' = [task\<lparr>t_status := Successful, t_successful := True\<rparr>]
               \<and> queued_tasks wm' = [t_id task])))"
proof (intro conjI impI allI)
  assume "t_NOOP task"
  then show "run_task refs now self task st = Ok (task, None) st" by (simp add: run_task_def)
next
  fix t' st' assume r: "Task_has_finished now None task st = Ok t' st'"
  note h = Task_has_finished_noop[OF r]
  from h(1) show "t_status t' = Successful" "t_successful t'" by simp_all
  from h(2) show "task\<lparr>t_status := Successful, t_successful := True\<rparr> \<in> set (tasks st')"
    by (simp add: in_set_upsert)
  fix wm wm' assume "complete_task t' wm = Inr wm'"
  from complete_task_wm[OF this] h(1) show "t_id task \<notin> set (g_nodes (dag_queue wm'))" by simp
next
  assume a: "t_NOOP task \<and> task \<in> set (tasks st) \<and> distinct (map t_id (tasks st))"
  let ?out = "outcome_state (run refs tof fin now events self st)"
  from run_step[of st refs tof fin now events self] a
  obtain added where s: "step (tasks st) added st ?out" by blast
  then obtain subs where k: "ja_keys ?out = ja_keys st @ added"
    and d: "drm_submitted ?out = drm_submitted st @ subs" and sub: "set subs \<subseteq> fst ` set added"
    and nn: "\<forall>k\<in>set added. nonnoop (tasks st) (snd k)"
    by (auto simp: step_def)
  have "\<not> nonnoop (tasks st) (t_id task)"
  proof
    assume "nonnoop (tasks st) (t_id task)"
    then obtain r where r: "r \<in> set (tasks st)" "t_id r = t_id task" "\<not> t_NOOP r"
      by (auto simp: nonnoop_def)
    from a r distinct_key_eq[of t_id "tasks st" r task] have "r = task" by simp
    with r a show False by simp
  qed
  with nn have "t_id task \<notin> snd ` set added" by auto
  with k d sub show "\<exists>added subs. ja_keys ?out = ja_keys st @ added
         \<and> drm_submitted ?out = drm_submitted st @ subs
         \<and> set subs \<subseteq> fst ` set added \<and> t_id task \<notin> snd ` set added" by blast
next
  fix self' wm' st'
  assume a: "distinct (map t_id (tasks st))
      \<and> (\<forall>t\<in>set (tasks st). t_NOOP t \<longrightarrow> jobAttempts_count (t_id t) st = 0)"
    and r: "run refs tof fin now events self st = Returned self' wm' st'
           \<or> run refs tof fin now events self st = Blocked self' wm' st'"
  from a have di: "distinct (map t_id (tasks st))"
    and na: "\<forall>t\<in>set (tasks st). t_NOOP t \<longrightarrow> jobAttempts_count (t_id t) st = 0" by simp_all
  from run_frontier[OF di r] show "get_ready_tasks wm' st' = []" .
  from run_noops_done[OF di na r]
  show "\<forall>t\<in>set (tasks st'). t_NOOP t \<and> t_id t \<in> set (queued_tasks wm') \<longrightarrow>
                 t_status t = Successful \<and> t_successful t
               \<and> t_id t \<notin> set (g_nodes (dag_queue wm'))" .
next
  assume a: "t_NOOP task \<and> tasks st = [task] \<and> stages st = [stage] \<and> t_stage task = s_id stage
      \<and> s_workflow stage = w_id self \<and> task_edges st = [] \<and> job_attempts st = []
      \<and> w_jobManager self = Some jm"
  then show "\<exists>self' wm' st'. run refs tof fin now events self st = Returned self' wm' st'
           \<and> job_attempts st' = [] \<and> drm_submitted st' = drm_submitted st
           \<and> g_nodes (dag_queue wm') = []
           \<and> (\<not> t_successful task \<longrightarrow>
                 tasks st' = [task\<lparr>t_status := Successful, t_successful := True\<rparr>]
               \<and> queued_tasks wm' = [t_id task])"
    using single_noop_returns[of st task stage self jm refs tof fin now events] by simp
qed

theorem noop_task_never_submitted_witness:
  "t_NOOP (mk_task 1 1 No_attempt False True None)
 \<and> tasks (example_single True) = [mk_task 1 1 No_attempt False True None]
 \<and> stages (example_single True) = [mk_stage 1 No_attempt False None]
 \<and> distinct (map t_id (tasks (example_single True)))
 \<and> job_attempts (example_single True) = []
 \<and> run_task no_refs 10 example_workflow (mk_task 1 1 No_attempt False True None) (example_single True)
      = Ok (mk_task 1 1 No_attempt False True None, None) (example_single True)
 \<and> (\<exists>t' st'. Task_has_finished 10 None (mk_task 1 1 No_attempt False True None) (example_single True)
        = Ok t' st' \<and> t_status t' = Successful \<and> t_successful t')
 \<and> (\<exists>self' wm' st'. run no_refs True True 10 [] example_workflow (example_single True)
        = Returned self' wm' st'
      \<and> job_attempts st' = [] \<and> drm_submitted st' = []
      \<and> tasks st' = [mk_task 1 1 Successful True True None]
      \<and> queued_tasks wm' = [1] \<and> g_nodes (dag_queue wm') = []
      \<and> get_ready_tasks wm' st' = []
      \<and> (\<forall>t\<in>set (tasks st'). t_NOOP t \<and> t_id t \<in> set (queued_tasks wm') \<longrightarrow>
             t_status t = Successful \<and> t_successful t
           \<and> t_id t \<notin> set (g_nodes (dag_queue wm'))))"
proof -
  let ?t = "mk_task 1 1 No_attempt False True None"
  let ?s = "mk_stage 1 No_attempt False None"
  let ?st = "example_single True"
  have n: "t_NOOP ?t" by (simp add: mk_task_def)
  have t: "tasks ?st = [?t]" by (simp add: example_single_def)
  have s: "stages ?st = [?s]" by (simp add: example_single_def)
  have d: "distinct (map t_id (tasks ?st))" by (simp add: example_single_def)
  have j: "job_attempts ?st = []" by (simp add: example_single_def example_defs)
  have o: "t_stage ?t = s_id ?s \<and> s_workflow ?s = w_id example_workflow
      \<and> task_edges ?st = [] \<and> w_jobManager example_workflow = Some 1 \<and> drm_submitted ?st = []
      \<and> \<not> t_successful ?t \<and> t_id ?t = 1
      \<and> ?t\<lparr>t_status := Successful, t_successful := True\<rparr> = mk_task 1 1 Successful True True None"
    by (simp add: example_single_def example_defs)
  have na: "\<forall>t\<in>set (tasks ?st). t_NOOP t \<longrightarrow> jobAttempts_count (t_id t) ?st = 0"
    using j by (simp add: jobAttempts_count_def)
  have h: "\<exists>t' st'. Task_has_finished 10 None ?t ?st = Ok t' st'"
    by (simp add: example_single_def example_defs Task_has_finished_def Task_set_status_def
        are_all_tasks_done_def Stage_has_finished_def Stage_set_status_def Stage_tasks_def
        save_task_def save_stage_def upsert_def Let_def)
  note main = noop_task_never_submitted[of ?t no_refs 10 example_workflow ?st
      True True "[]" ?s 1]
  from main n have a: "run_task no_refs 10 example_workflow ?t ?st = Ok (?t, None) ?st" by blast
  from main h have b: "\<exists>t' st'. Task_has_finished 10 None ?t ?st
        = Ok t' st' \<and> t_status t' = Successful \<and> t_successful t'" by blast
  from main n t s o j obtain self' wm' st' where
    r: "run no_refs True True 10 [] example_workflow ?st = Returned self' wm' st'"
    and r1: "job_attempts st' = []" "drm_submitted st' = drm_submitted ?st"
      "g_nodes (dag_queue wm') = []"
    and r2: "tasks st' = [?t\<lparr>t_status := Successful, t_successful := True\<rparr>]"
      "queued_tasks wm' = [t_id ?t]"
    by blast
  from main d na r have r3: "get_ready_tasks wm' st' = []"
    and r4: "\<forall>t\<in>set (tasks st'). t_NOOP t \<and> t_id t \<in> set (queued_tasks wm') \<longrightarrow>
             t_status t = Successful \<and> t_successful t
           \<and> t_id t \<notin> set (g_nodes (dag_queue wm'))" by blast+
  from r1 r2 o have r5: "drm_submitted st' = []" "tasks st' = [mk_task 1 1 Successful True True None]"
    "queued_tasks wm' = [1]" by simp_all
  have c: "\<exists>self' wm' st'. run no_refs True True 10 [] example_workflow ?st
        = Returned self' wm' st'
      \<and> job_attempts st' = [] \<and> drm_submitted st' = []
      \<and> tasks st' = [mk_task 1 1 Successful True True None]
      \<and> queued_tasks wm' = [1] \<and> g_nodes (dag_queue wm') = []
      \<and> get_ready_tasks wm' st' = []
      \<and> (\<forall>t\<in>set (tasks st'). t_NOOP t \<and> t_id t \<in> set (queued_tasks wm') \<longrightarrow>
             t_status t = Successful \<and> t_successful t
           \<and> t_id t \<notin> set (g_nodes (dag_queue wm')))"
    using r r1(1,3) r3 r4 r5 by blast
  from n t s d j a b c show ?thesis by blast
qed

subsection \<open>The number of attempts of a task\<close>





end
